theory Spec2Isabelle
  imports Main "HOL-Library.Sublist"
begin

section \<open>Data model of \<open>indicators.go\<close>\<close>

text \<open>
  The tri-state boolean of the source: \<open>truthUnknown\<close> is the zero value.
\<close>

datatype truth = truthUnknown | truthTrue | truthFalse

text \<open>The struct \<open>Pattern\<close>; a pattern is never written after construction.\<close>

record Pattern =
  Type :: string
  Value :: string
  Value2 :: string
  Match :: string

text \<open>
  The struct \<open>dt.Indicator\<close> is declared in another package. The engine reads its \<open>Id\<close>
  and writes its \<open>Type\<close> and \<open>Value\<close>; the other fields are the ones the definition
  files carry.
\<close>

record Indicator =
  Id :: string
  Type :: string
  Value :: string
  Description :: string
  Category :: string
  Author :: string
  Source :: string

text \<open>
  The struct \<open>IndicatorNode\<close>. The source links nodes by pointer: here a node pointer is an
  index into the list of all nodes, and an index outside the list is the nil pointer.
  \<open>Indicator\<close> is a pointer as well: \<open>None\<close> is nil, \<open>Some a\<close> is the address of an
  indicator object, which the engine updates in place and returns by address.
\<close>

record IndicatorNode =
  ID :: string
  Comment :: string
  Ref :: string
  Operator :: string
  Indicator :: "nat option"
  Parents :: "nat list"
  Children :: "nat list"
  SiblingNots :: "int list"
  Pattern :: "Pattern option"
  truth :: truth
  eventID :: int
  UseOriginalIndicatorValue :: bool

text \<open>
  The heap: every node, and every indicator object by address. A pointer to an indicator
  that is not nil points to an object, so every address holds one.
\<close>

record heap =
  nodes :: "IndicatorNode list"
  indicators :: "nat \<Rightarrow> Indicator"

text \<open>
  The child argument of \<open>setTruth\<close> is a pointer to one of the two package-level marker
  nodes or to a node of the graph.
\<close>

datatype nodeRef = trueNode | falseNode | Ptr nat

datatype panic = NilDereference | IndexOutOfRange

definition zeroNode :: IndicatorNode where
  "zeroNode = \<lparr>ID = [], Comment = [], Ref = [], Operator = [], Indicator = None,
     Parents = [], Children = [], SiblingNots = [], Pattern = None,
     truth = truthUnknown, eventID = 0, UseOriginalIndicatorValue = False\<rparr>"

text \<open>Reading through a child pointer; \<open>None\<close> is the nil pointer.\<close>

fun deref :: "heap \<Rightarrow> nodeRef \<Rightarrow> IndicatorNode option" where
  "deref s trueNode = Some (zeroNode\<lparr>truth := truthTrue\<rparr>)"
| "deref s falseNode = Some (zeroNode\<lparr>truth := truthFalse\<rparr>)"
| "deref s (Ptr i) = (if i < length (nodes s) then Some (nodes s ! i) else None)"

section \<open>The propagation engine\<close>

text \<open>
  \<open>strings.Split\<close> of the Go library, for a separator of one character: the pieces
  between the separators, at least one piece. \<open>Split_no_sep\<close> and \<open>Split_at_sep\<close>
  below characterise it.
\<close>

fun Split :: "string \<Rightarrow> char \<Rightarrow> string list" where
  "Split [] sep = [[]]"
| "Split (c # cs) sep =
     (if c = sep then [] # Split cs sep
      else (case Split cs sep of [] \<Rightarrow> [[c]] | p # ps \<Rightarrow> (c # p) # ps))"

definition updNode :: "heap \<Rightarrow> nat \<Rightarrow> (IndicatorNode \<Rightarrow> IndicatorNode) \<Rightarrow> heap" where
  "updNode s n f = s\<lparr>nodes := (nodes s)[n := f (nodes s ! n)]\<rparr>"

text \<open>Lines 123 to 129: a node whose event ID is not the current one is reset.\<close>

definition resetNode :: "IndicatorNode \<Rightarrow> int \<Rightarrow> IndicatorNode" where
  "resetNode node evID =
     (if eventID node \<noteq> evID
      then (let node1 = node\<lparr>truth := truthUnknown, eventID := evID\<rparr>
            in if Operator node1 \<noteq> [] then node1\<lparr>Pattern := None\<rparr> else node1)
      else node)"

text \<open>
  Lines 153 to 158: the loop over the children of an AND node, which stops at the first
  child that is not true for the event of the node.
\<close>

fun childrenLoop :: "heap \<Rightarrow> int \<Rightarrow> nat list \<Rightarrow> panic + truth" where
  "childrenLoop s ev [] = Inr truthTrue"
| "childrenLoop s ev (c # cs) =
     (if c < length (nodes s)
      then (if eventID (nodes s ! c) \<noteq> ev \<or> truth (nodes s ! c) \<noteq> truthTrue
            then Inr truthUnknown
            else childrenLoop s ev cs)
      else Inl NilDereference)"

text \<open>
  Lines 136 to 177: the value of \<open>setNodeTo\<close>, and the heap after the pattern of the node
  has been adopted from a child. The node is at index \<open>n\<close>, already reset.
\<close>

definition evalOperator :: "heap \<Rightarrow> nodeRef \<Rightarrow> nat \<Rightarrow> panic + (truth \<times> heap)" where
  "evalOperator s childRef n =
     (case deref s childRef of None \<Rightarrow> Inl NilDereference | Some childNode \<Rightarrow>
      let node = nodes s ! n in
      if Operator node \<noteq> [] then
        (if Operator node = ''OR'' then
           (if truth childNode = truthTrue
            then Inr (truthTrue,
                   if Pattern node = None
                   then updNode s n (\<lambda>nd. nd\<lparr>Pattern := Pattern childNode\<rparr>) else s)
            else Inr (truthUnknown, s))
         else if Operator node = ''AND'' then
           (if truth childNode = truthFalse then Inr (truthFalse, s)
            else (case childrenLoop s (eventID node) (Children node) of
                    Inl e \<Rightarrow> Inl e
                  | Inr setNodeTo \<Rightarrow>
                      if setNodeTo = truthTrue \<and> Pattern node = None
                      then (case Children node of
                              [] \<Rightarrow> Inl IndexOutOfRange
                            | c # cs \<Rightarrow>
                                if c < length (nodes s)
                                then Inr (setNodeTo,
                                       updNode s n (\<lambda>nd. nd\<lparr>Pattern := Pattern (nodes s ! c)\<rparr>))
                                else Inl NilDereference)
                      else Inr (setNodeTo, s)))
         else if Operator node = ''NOT'' then
           (if truth childNode = truthTrue then Inr (truthFalse, s) else Inr (truthTrue, s))
         else Inr (truthUnknown, s))
      else Inr (truth childNode, s))"

text \<open>
  Lines 185 to 208: the indicators this node appends, and the heap after the indicator
  object of the node has taken its type and value from the pattern.
\<close>

definition emitIndicator :: "heap \<Rightarrow> nat \<Rightarrow> nat list \<times> heap" where
  "emitIndicator s n =
     (let node = nodes s ! n in
      if truth node = truthTrue then
        (case Indicator node of
           None \<Rightarrow> ([], s)
         | Some a \<Rightarrow>
             (case Pattern node of
                Some p \<Rightarrow>
                  if \<not> UseOriginalIndicatorValue node then
                    (let parts = Split (Pattern.Type p) CHR ''.'';
                         ty = (if length parts > 1 then parts ! 1 else parts ! 0);
                         ind = (indicators s a)\<lparr>Indicator.Type := ty,
                                  Indicator.Value := Pattern.Value p\<rparr>
                     in ([a], s\<lparr>indicators := (indicators s)(a := ind)\<rparr>))
                  else ([a], s)
              | None \<Rightarrow> ([a], s)))
      else ([], s))"

text \<open>
  A node is resolved for an event when its truth is known and was stored for that event.
\<close>

definition resolved :: "int \<Rightarrow> IndicatorNode \<Rightarrow> bool" where
  "resolved ev node \<longleftrightarrow> eventID node = ev \<and> truth node \<noteq> truthUnknown"

definition unresolvedCount :: "int \<Rightarrow> heap \<Rightarrow> nat" where
  "unresolvedCount ev s = length (filter (\<lambda>nd. \<not> resolved ev nd) (nodes s))"

text \<open>
  \<open>setTruth\<close>, with the loop over the parents (lines 211 to 220) as \<open>parentsLoop\<close>. The
  result is the list of indicator addresses, the discovered sibling negations and the heap
  after the call, or the panic that ends the call.
\<close>

function setTruth :: "heap \<Rightarrow> nodeRef \<Rightarrow> nat \<Rightarrow> int \<Rightarrow> panic + (nat list \<times> int list \<times> heap)"
  and parentsLoop :: "heap \<Rightarrow> nat \<Rightarrow> nat list \<Rightarrow> int \<Rightarrow> panic + (nat list \<times> int list \<times> heap)"
where
  "setTruth s childNode n evID =
     (if n < length (nodes s) then
        (let discoveredNots = SiblingNots (nodes s ! n) in
         case deref s childNode of
           None \<Rightarrow> Inl NilDereference
         | Some child0 \<Rightarrow>
             if truth child0 = truthUnknown then Inr ([], [], s)
             else
               (let s1 = updNode s n (\<lambda>nd. resetNode nd evID) in
                if truth (nodes s1 ! n) = truthUnknown then
                  (case evalOperator s1 childNode n of
                     Inl e \<Rightarrow> Inl e
                   | Inr (setNodeTo, s2) \<Rightarrow>
                       if setNodeTo \<noteq> truthUnknown then
                         (let s3 = updNode s2 n (\<lambda>nd. nd\<lparr>truth := setNodeTo\<rparr>);
                              (inds, s4) = emitIndicator s3 n
                          in case parentsLoop s4 n (Parents (nodes s4 ! n)) evID of
                               Inl e \<Rightarrow> Inl e
                             | Inr (pinds, pnots, s5) \<Rightarrow>
                                 Inr (inds @ pinds, discoveredNots @ pnots, s5))
                       else Inr ([], discoveredNots, s2))
                else Inr ([], discoveredNots, s1)))
      else Inl NilDereference)"
| "parentsLoop s n [] evID = Inr ([], [], s)"
| "parentsLoop s n (parent # ps) evID =
     (case setTruth s (Ptr n) parent evID of
        Inl e \<Rightarrow> Inl e
      | Inr (inds, discNots, s1) \<Rightarrow>
          (case parentsLoop s1 n ps evID of
             Inl e \<Rightarrow> Inl e
           | Inr (pinds, pnots, s2) \<Rightarrow> Inr (inds @ pinds, discNots @ pnots, s2)))"
  by pat_completeness auto

text \<open>
  The body of \<open>setTruth\<close> up to the loop over the parents, as one step: the flag of the
  result says whether the node has just been resolved, which is when the loop over the
  parents follows. \<open>setTruth_touch\<close> below proves that \<open>setTruth\<close> is this step followed by
  \<open>parentsLoop\<close>.
\<close>

definition touch :: "heap \<Rightarrow> nodeRef \<Rightarrow> nat \<Rightarrow> int \<Rightarrow> panic + (bool \<times> nat list \<times> int list \<times> heap)" where
  "touch s childNode n evID =
     (if n < length (nodes s) then
        (case deref s childNode of
           None \<Rightarrow> Inl NilDereference
         | Some child0 \<Rightarrow>
             if truth child0 = truthUnknown then Inr (False, [], [], s)
             else
               (let s1 = updNode s n (\<lambda>nd. resetNode nd evID) in
                if truth (nodes s1 ! n) = truthUnknown then
                  (case evalOperator s1 childNode n of
                     Inl e \<Rightarrow> Inl e
                   | Inr (setNodeTo, s2) \<Rightarrow>
                       if setNodeTo \<noteq> truthUnknown then
                         (let s3 = updNode s2 n (\<lambda>nd. nd\<lparr>truth := setNodeTo\<rparr>);
                              (inds, s4) = emitIndicator s3 n
                          in Inr (True, inds, SiblingNots (nodes s ! n), s4))
                       else Inr (False, [], SiblingNots (nodes s ! n), s2))
                else Inr (False, [], SiblingNots (nodes s ! n), s1)))
      else Inl NilDereference)"

text \<open>The two entry points.\<close>

definition Fire :: "heap \<Rightarrow> nat \<Rightarrow> int \<Rightarrow> panic + (nat list \<times> int list \<times> heap)" where
  "Fire s node evID = setTruth s trueNode node evID"

definition ResolveNot :: "heap \<Rightarrow> nat \<Rightarrow> int \<Rightarrow> panic + (nat list \<times> int list \<times> heap)" where
  "ResolveNot s node evID = setTruth s falseNode node evID"

section \<open>Predicates on heaps\<close>

text \<open>
  What a call may not change in a node: every field but the truth, the event ID and, for a
  node with an operator, the pattern.
\<close>

definition sameShape :: "IndicatorNode \<Rightarrow> IndicatorNode \<Rightarrow> bool" where
  "sameShape a b \<longleftrightarrow>
     ID b = ID a \<and> Comment b = Comment a \<and> Ref b = Ref a \<and> Operator b = Operator a \<and>
     Indicator b = Indicator a \<and> Parents b = Parents a \<and> Children b = Children a \<and>
     SiblingNots b = SiblingNots a \<and>
     UseOriginalIndicatorValue b = UseOriginalIndicatorValue a \<and>
     (Operator a = [] \<longrightarrow> Pattern b = Pattern a)"

text \<open>
  The same for a whole heap; of an indicator object only the type and the value may change.
\<close>

definition structureKept :: "heap \<Rightarrow> heap \<Rightarrow> bool" where
  "structureKept s s' \<longleftrightarrow>
     length (nodes s') = length (nodes s) \<and>
     (\<forall>i < length (nodes s). sameShape (nodes s ! i) (nodes s' ! i)) \<and>
     (\<forall>a. Id (indicators s' a) = Id (indicators s a) \<and>
          Description (indicators s' a) = Description (indicators s a) \<and>
          Category (indicators s' a) = Category (indicators s a) \<and>
          Author (indicators s' a) = Author (indicators s a) \<and>
          Source (indicators s' a) = Source (indicators s a))"

text \<open>Every node that is resolved for the event is the same node afterwards.\<close>

definition resolvedKept :: "int \<Rightarrow> heap \<Rightarrow> heap \<Rightarrow> bool" where
  "resolvedKept ev s s' \<longleftrightarrow>
     length (nodes s') = length (nodes s) \<and>
     (\<forall>i < length (nodes s). resolved ev (nodes s ! i) \<longrightarrow> nodes s' ! i = nodes s ! i)"

text \<open>
  A heap is well formed when no parent or child pointer is nil and every AND node has at
  least one child.
\<close>

definition wellFormed :: "heap \<Rightarrow> bool" where
  "wellFormed s \<longleftrightarrow>
     list_all (\<lambda>nd. list_all (\<lambda>p. p < length (nodes s)) (Parents nd) \<and>
                    list_all (\<lambda>c. c < length (nodes s)) (Children nd) \<and>
                    (Operator nd = ''AND'' \<longrightarrow> Children nd \<noteq> [])) (nodes s)"

text \<open>
  The nodes \<open>ms\<close> emit the indicators \<open>inds\<close> in a call for the event \<open>ev\<close> that leads
  from \<open>s\<close> to \<open>s'\<close>: no node occurs twice in \<open>ms\<close>, the indicators are those of the nodes
  in this order, and every node of \<open>ms\<close> was not resolved for the event before the call
  and is true for the event after it.
\<close>

definition emitters :: "int \<Rightarrow> heap \<Rightarrow> nat list \<Rightarrow> heap \<Rightarrow> nat list \<Rightarrow> bool" where
  "emitters ev s inds s' ms \<longleftrightarrow>
     distinct ms \<and> map (\<lambda>m. Indicator (nodes s ! m)) ms = map Some inds \<and>
     (\<forall>m \<in> set ms. m < length (nodes s) \<and> \<not> resolved ev (nodes s ! m) \<and>
         truth (nodes s' ! m) = truthTrue \<and> eventID (nodes s' ! m) = ev)"

text \<open>
  What a call does to the heap and returns: the structure is kept, the resolved nodes are
  kept, an indicator object that is not returned is not written, and the indicators
  returned have emitters.
\<close>

definition emission :: "int \<Rightarrow> heap \<Rightarrow> nat list \<Rightarrow> int list \<Rightarrow> heap \<Rightarrow> bool" where
  "emission ev s inds nots s' \<longleftrightarrow>
     structureKept s s' \<and> resolvedKept ev s s' \<and>
     (\<forall>a. a \<notin> set inds \<longrightarrow> indicators s' a = indicators s a) \<and>
     (\<exists>ms. emitters ev s inds s' ms)"

text \<open>No two nodes point to the same indicator object.\<close>

definition unshared :: "heap \<Rightarrow> bool" where
  "unshared s \<longleftrightarrow> distinct (List.map_filter Indicator (nodes s))"

text \<open>
  The value substitution in the words of the specification: the type is the second of
  the components of the pattern's type separated by dots when there are two or more, and
  the whole type when there is one; the value is the value of the pattern.
\<close>

definition substituted :: "Indicator \<Rightarrow> Pattern \<Rightarrow> Indicator" where
  "substituted ind p =
     ind\<lparr>Indicator.Type :=
           (if 2 \<le> length (Split (Pattern.Type p) CHR ''.'')
            then Split (Pattern.Type p) CHR ''.'' ! 1 else Pattern.Type p),
         Indicator.Value := Pattern.Value p\<rparr>"

section \<open>Example graphs\<close>

definition zeroIndicator :: Indicator where
  "zeroIndicator = \<lparr>Id = [], Type = [], Value = [], Description = [], Category = [],
     Author = [], Source = []\<rparr>"

text \<open>A node with an operator that is none of OR, AND and NOT, below an OR node.\<close>

definition xorHeap :: heap where
  "xorHeap = \<lparr>nodes = [zeroNode\<lparr>Operator := ''XOR'', Indicator := Some 0, Parents := [1],
                  SiblingNots := [5]\<rparr>,
                zeroNode\<lparr>Operator := ''OR'', Children := [0]\<rparr>],
     indicators = (\<lambda>a. zeroIndicator)\<rparr>"

text \<open>A leaf with a pattern of the given type and value.\<close>

definition leaf :: "string \<Rightarrow> string \<Rightarrow> nat list \<Rightarrow> IndicatorNode" where
  "leaf ty v ps = zeroNode\<lparr>Parents := ps,
     Pattern := Some \<lparr>Pattern.Type = ty, Value = v, Value2 = [], Match = []\<rparr>\<rparr>"

text \<open>The indicator of the example tree that comes with the source.\<close>

definition torIndicator :: Indicator where
  "torIndicator = \<lparr>Id = ''1ac05c71'', Type = ''ipv4'', Value = ''103.199.16.66'',
     Description = ''TOR exit node'', Category = ''tor.exit'', Author = ''me@dan.me.uk'',
     Source = ''https://www.dan.me.uk/tornodes''\<rparr>"

text \<open>A leaf below an OR node that carries an indicator, before and after the leaf fires.\<close>

definition orHeap :: heap where
  "orHeap = \<lparr>nodes = [leaf ''src.ipv4'' ''10.0.0.1'' [1],
                       zeroNode\<lparr>Operator := ''OR'', Indicator := Some 0, Children := [0]\<rparr>],
     indicators = (\<lambda>a. torIndicator)\<rparr>"

definition orHeapFired :: heap where
  "orHeapFired = \<lparr>nodes =
       [(leaf ''src.ipv4'' ''10.0.0.1'' [1])\<lparr>truth := truthTrue, eventID := 1\<rparr>,
        zeroNode\<lparr>Operator := ''OR'', Indicator := Some 0, Children := [0],
          Pattern := Pattern (leaf ''src.ipv4'' ''10.0.0.1'' [1]),
          truth := truthTrue, eventID := 1\<rparr>],
     indicators = (\<lambda>a. torIndicator)
       (0 := torIndicator\<lparr>Indicator.Type := ''ipv4'', Indicator.Value := ''10.0.0.1''\<rparr>)\<rparr>"

text \<open>A node that has been resolved true for an event.\<close>

definition fired :: "int \<Rightarrow> IndicatorNode \<Rightarrow> IndicatorNode" where
  "fired ev nd = nd\<lparr>truth := truthTrue, eventID := ev\<rparr>"

text \<open>Two leaves below an AND node that carries an indicator.\<close>

definition andHeap :: heap where
  "andHeap = \<lparr>nodes = [leaf ''src.ipv4'' ''10.0.0.1'' [2],
                        leaf ''dest.port'' ''443'' [2],
                        zeroNode\<lparr>Operator := ''AND'', Indicator := Some 0, Children := [0, 1]\<rparr>],
     indicators = (\<lambda>a. torIndicator)\<rparr>"

text \<open>A leaf below a NOT node.\<close>

definition notHeap :: heap where
  "notHeap = \<lparr>nodes = [leaf ''country'' ''GB'' [1],
                        zeroNode\<lparr>Operator := ''NOT'', Children := [0], SiblingNots := [1]\<rparr>],
     indicators = (\<lambda>a. torIndicator)\<rparr>"


text \<open>\<open>notHeap\<close> after the NOT node has been resolved for event 1.\<close>

definition notHeapResolved :: heap where
  "notHeapResolved = \<lparr>nodes = [leaf ''country'' ''GB'' [1],
       zeroNode\<lparr>Operator := ''NOT'', Children := [0], SiblingNots := [1],
                truth := truthTrue, eventID := 1\<rparr>],
     indicators = (\<lambda>a. torIndicator)\<rparr>"

text \<open>A single leaf with an indicator and a sibling negation, before and after it fires.\<close>

definition sibHeap :: heap where
  "sibHeap = \<lparr>nodes = [(leaf ''src.ipv4'' ''10.0.0.1'' [])\<lparr>Indicator := Some 0,
                           SiblingNots := [3]\<rparr>],
     indicators = (\<lambda>a. torIndicator)\<rparr>"

definition sibHeapFired :: heap where
  "sibHeapFired = \<lparr>nodes = [fired 1 ((leaf ''src.ipv4'' ''10.0.0.1'' [])\<lparr>Indicator := Some 0,
                           SiblingNots := [3]\<rparr>)],
     indicators = (\<lambda>a. torIndicator)
       (0 := torIndicator\<lparr>Indicator.Type := ''ipv4'', Indicator.Value := ''10.0.0.1''\<rparr>)\<rparr>"

section \<open>Termination of the propagation\<close>

text \<open>
  Every recursive call of \<open>setTruth\<close> follows the resolution of a node that was not
  resolved for the event, and a resolved node stays resolved: the number of unresolved
  nodes decreases. This holds for every heap, also one whose parent links form a cycle.
\<close>

lemma count_upd:
  "n < length xs \<Longrightarrow>
   length (filter Q (xs[n := y])) + (if Q (xs ! n) then 1 else 0)
     = length (filter Q xs) + (if Q y then 1 else 0)"
proof (induction xs arbitrary: n)
  case Nil then show ?case by simp
next
  case (Cons x xs)
  show ?case
  proof (cases n)
    case 0 then show ?thesis by simp
  next
    case (Suc m)
    with Cons.prems have "m < length xs" by simp
    from Cons.IH[OF this] Suc show ?thesis by simp
  qed
qed

lemma resolved_resetNode: "resolved ev (resetNode nd ev) = resolved ev nd"
  by (auto simp: resolved_def resetNode_def Let_def)

lemma nodes_updNode [simp]: "nodes (updNode s n f) = (nodes s)[n := f (nodes s ! n)]"
  by (simp add: updNode_def)

lemma indicators_updNode [simp]: "indicators (updNode s n f) = indicators s"
  by (simp add: updNode_def)

lemma nodes_emitIndicator: "emitIndicator s n = (inds, s') \<Longrightarrow> nodes s' = nodes s"
  by (auto simp: emitIndicator_def Let_def split: option.splits if_splits)

lemma deref_updNode:
  "deref s c = Some ch \<Longrightarrow> \<exists>ch'. deref (updNode s n f) c = Some ch'"
  by (cases c) (auto split: if_splits)

lemma evalOperator_nodes:
  assumes "evalOperator s c n = Inr (t, s2)"
  shows "nodes s2 = nodes s \<or> (\<exists>p. nodes s2 = (nodes s)[n := (nodes s ! n)\<lparr>Pattern := p\<rparr>])"
  using assms unfolding evalOperator_def Let_def
  by (auto split: option.splits if_splits sum.splits list.splits)

lemma touch_resolves_nodes:
  assumes "touch s c n ev = Inr (True, inds, nots, s4)"
  shows "n < length (nodes s) \<and> \<not> resolved ev (nodes s ! n) \<and>
         (\<exists>nd. nodes s4 = (nodes s)[n := nd] \<and> resolved ev nd)"
proof -
  from assms have n: "n < length (nodes s)"
    by (auto simp: touch_def split: if_splits)
  let ?s1 = "updNode s n (\<lambda>nd. resetNode nd ev)"
  from assms n obtain t s2 where
    u: "truth (nodes ?s1 ! n) = truthUnknown" and
    e: "evalOperator ?s1 c n = Inr (t, s2)" and t: "t \<noteq> truthUnknown" and
    em: "emitIndicator (updNode s2 n (\<lambda>nd. nd\<lparr>truth := t\<rparr>)) n = (inds, s4)"
    by (auto simp: touch_def Let_def split: if_splits option.splits sum.splits prod.splits)
  from u n have nr: "\<not> resolved ev (nodes s ! n)"
    by (auto simp: resolved_def resetNode_def Let_def split: if_splits)
  from n have ev1: "eventID (nodes ?s1 ! n) = ev"
    by (auto simp: resetNode_def Let_def)
  from nodes_emitIndicator[OF em]
  have n4: "nodes s4 = (nodes s2)[n := (nodes s2 ! n)\<lparr>truth := t\<rparr>]" by simp
  from evalOperator_nodes[OF e] n ev1 t
  have "\<exists>nd. nodes s4 = (nodes s)[n := nd] \<and> resolved ev nd"
    unfolding n4 by (auto simp: resolved_def)
  with n nr show ?thesis by blast
qed

lemma touch_resolves_count:
  assumes "touch s c n ev = Inr (True, inds, nots, s4)"
  shows "unresolvedCount ev s4 < unresolvedCount ev s"
proof -
  from touch_resolves_nodes[OF assms] obtain nd where
    n: "n < length (nodes s)" and nr: "\<not> resolved ev (nodes s ! n)" and
    eq: "nodes s4 = (nodes s)[n := nd]" and r: "resolved ev nd" by blast
  from count_upd[OF n, of "\<lambda>x. \<not> resolved ev x" nd] nr r
  show ?thesis by (simp add: unresolvedCount_def eq)
qed


lemma touch_raw:
  assumes "touch s c n ev = Inr (True, inds, nots, s4)"
  obtains child0 setNodeTo s2 where
    "n < length (nodes s)" "deref s c = Some child0" "truth child0 \<noteq> truthUnknown"
    "truth (nodes (updNode s n (\<lambda>nd. resetNode nd ev)) ! n) = truthUnknown"
    "evalOperator (updNode s n (\<lambda>nd. resetNode nd ev)) c n = Inr (setNodeTo, s2)"
    "setNodeTo \<noteq> truthUnknown"
    "emitIndicator (updNode s2 n (\<lambda>nd. nd\<lparr>truth := setNodeTo\<rparr>)) n = (inds, s4)"
    "nots = SiblingNots (nodes s ! n)"
  using assms unfolding touch_def Let_def
  by (auto split: if_splits option.splits sum.splits prod.splits)

lemma setTruth_touch_p:
  assumes "setTruth_parentsLoop_dom (Inl (s, c, n, ev))"
  shows "setTruth s c n ev =
     (case touch s c n ev of
        Inl e \<Rightarrow> Inl e
      | Inr (b, inds, nots, s4) \<Rightarrow>
          if b then
            (case parentsLoop s4 n (Parents (nodes s4 ! n)) ev of
               Inl e \<Rightarrow> Inl e
             | Inr (pinds, pnots, s5) \<Rightarrow> Inr (inds @ pinds, nots @ pnots, s5))
          else Inr (inds, nots, s4))"
  unfolding setTruth.psimps[OF assms] touch_def Let_def
  by (simp split: option.splits sum.splits prod.splits)

lemma pinduct_touch:
  assumes step: "\<And>s c n ev.
      setTruth_parentsLoop_dom (Inl (s, c, n, ev)) \<Longrightarrow>
      (\<And>inds nots s4. touch s c n ev = Inr (True, inds, nots, s4)
          \<Longrightarrow> Q s4 n (Parents (nodes s4 ! n)) ev) \<Longrightarrow> P s c n ev"
    and nil: "\<And>s n ev. setTruth_parentsLoop_dom (Inr (s, n, [], ev)) \<Longrightarrow> Q s n [] ev"
    and cons: "\<And>s n p ps ev.
      setTruth_parentsLoop_dom (Inr (s, n, p # ps, ev)) \<Longrightarrow>
      P s (Ptr n) p ev \<Longrightarrow>
      (\<And>inds nots s1. setTruth s (Ptr n) p ev = Inr (inds, nots, s1) \<Longrightarrow> Q s1 n ps ev)
      \<Longrightarrow> Q s n (p # ps) ev"
  shows "setTruth_parentsLoop_dom (Inl (s0, c0, n0, ev0)) \<Longrightarrow> P s0 c0 n0 ev0"
    and "setTruth_parentsLoop_dom (Inr (s0', n0', ps0, ev0')) \<Longrightarrow> Q s0' n0' ps0 ev0'"
proof -
  have c1: "P s c n ev"
    if d: "setTruth_parentsLoop_dom (Inl (s, c, n, ev))"
    and ih: "\<And>x x2 xa b xaa y xab xac xad ya.
          \<lbrakk>n < length (nodes s); x = SiblingNots (nodes s ! n);
           deref s c = Some x2; truth x2 \<noteq> truthUnknown;
           xa = updNode s n (\<lambda>nd. resetNode nd ev);
           truth (nodes xa ! n) = truthUnknown;
           evalOperator xa c n = Inr b; (xaa, y) = b;
           xaa \<noteq> truthUnknown; xab = updNode y n (truth_update (\<lambda>_. xaa));
           xac = emitIndicator xab n; (xad, ya) = xac\<rbrakk>
          \<Longrightarrow> Q ya n (Parents (nodes ya ! n)) ev" for s c n ev
  proof (rule step[OF d])
    fix inds nots s4
    assume "touch s c n ev = Inr (True, inds, nots, s4)"
    then show "Q s4 n (Parents (nodes s4 ! n)) ev"
    proof (rule touch_raw)
      fix child0 setNodeTo s2
      assume a: "n < length (nodes s)" "deref s c = Some child0" "truth child0 \<noteq> truthUnknown"
        "truth (nodes (updNode s n (\<lambda>nd. resetNode nd ev)) ! n) = truthUnknown"
        "evalOperator (updNode s n (\<lambda>nd. resetNode nd ev)) c n = Inr (setNodeTo, s2)"
        "setNodeTo \<noteq> truthUnknown"
        "emitIndicator (updNode s2 n (\<lambda>nd. nd\<lparr>truth := setNodeTo\<rparr>)) n = (inds, s4)"
      show ?thesis
        by (rule ih[OF a(1) refl a(2) a(3) refl a(4) a(5) refl a(6) refl refl a(7)[symmetric]])
    qed
  qed
  have c3: "Q s n (p # ps) ev"
    if d: "setTruth_parentsLoop_dom (Inr (s, n, p # ps, ev))"
    and p: "P s (Ptr n) p ev"
    and ih: "\<And>b x y xa ya.
          \<lbrakk>setTruth s (Ptr n) p ev = Inr b; (x, y) = b; (xa, ya) = y\<rbrakk>
          \<Longrightarrow> Q ya n ps ev" for s n p ps ev
    by (rule cons[OF d p]) (rule ih[OF _ refl refl])
  show "setTruth_parentsLoop_dom (Inl (s0, c0, n0, ev0)) \<Longrightarrow> P s0 c0 n0 ev0"
    by (rule setTruth_parentsLoop.pinduct(1)[where P=P and Q=Q]) (auto intro: c1 nil c3)
  show "setTruth_parentsLoop_dom (Inr (s0', n0', ps0, ev0')) \<Longrightarrow> Q s0' n0' ps0 ev0'"
    by (rule setTruth_parentsLoop.pinduct(2)[where P=P and Q=Q]) (auto intro: c1 nil c3)
qed


lemma evalOperator_Unknown: "evalOperator s c n = Inr (truthUnknown, s2) \<Longrightarrow> s2 = s"
  unfolding evalOperator_def Let_def
  by (auto split: option.splits if_splits sum.splits list.splits)

lemma touch_unresolved:
  assumes "touch s c n ev = Inr (False, inds, nots, s')"
  shows "inds = [] \<and> (s' = s \<or> s' = updNode s n (\<lambda>nd. resetNode nd ev))"
  using assms unfolding touch_def Let_def
  by (auto split: if_splits option.splits sum.splits prod.splits dest: evalOperator_Unknown)

lemma unresolvedCount_reset:
  "unresolvedCount ev (updNode s n (\<lambda>nd. resetNode nd ev)) = unresolvedCount ev s"
proof (cases "n < length (nodes s)")
  case True
  from count_upd[OF True, of "\<lambda>x. \<not> resolved ev x" "resetNode (nodes s ! n) ev"]
  show ?thesis by (simp add: unresolvedCount_def resolved_resetNode)
next
  case False
  then show ?thesis by (simp add: unresolvedCount_def list_update_beyond)
qed

lemma count_mono_p:
  "setTruth_parentsLoop_dom (Inl (s0, c0, n0, ev0)) \<Longrightarrow>
     setTruth s0 c0 n0 ev0 = Inr (i0, d0, s0') \<Longrightarrow> unresolvedCount ev0 s0' \<le> unresolvedCount ev0 s0"
proof -
  let ?P = "\<lambda>s c n ev. \<forall>i d s'. setTruth s c n ev = Inr (i, d, s') \<longrightarrow>
              unresolvedCount ev s' \<le> unresolvedCount ev s"
  let ?Q = "\<lambda>s n ps ev. \<forall>i d s'. parentsLoop s n ps ev = Inr (i, d, s') \<longrightarrow>
              unresolvedCount ev s' \<le> unresolvedCount ev s"
  have c1: "?P s c n ev"
    if d: "setTruth_parentsLoop_dom (Inl (s, c, n, ev))"
    and ih: "\<And>inds nots s4. touch s c n ev = Inr (True, inds, nots, s4)
          \<Longrightarrow> ?Q s4 n (Parents (nodes s4 ! n)) ev" for s c n ev
  proof (intro allI impI)
    fix i d s'
    assume r: "setTruth s c n ev = Inr (i, d, s')"
    show "unresolvedCount ev s' \<le> unresolvedCount ev s"
    proof (cases "touch s c n ev")
      case (Inl e)
      with r d show ?thesis by (simp add: setTruth_touch_p)
    next
      case (Inr q)
      obtain b inds nots s4 where q: "q = (b, inds, nots, s4)" by (cases q) auto
      show ?thesis
      proof (cases b)
        case True
        from r Inr q True d obtain pinds pnots where
          "parentsLoop s4 n (Parents (nodes s4 ! n)) ev = Inr (pinds, pnots, s')"
          by (auto simp: setTruth_touch_p split: sum.splits)
        with ih[of inds nots s4] Inr q True
        have "unresolvedCount ev s' \<le> unresolvedCount ev s4" by simp
        moreover from touch_resolves_count[of s c n ev inds nots s4] Inr q True
        have "unresolvedCount ev s4 < unresolvedCount ev s" by simp
        ultimately show ?thesis by simp
      next
        case False
        with r Inr q d have "s' = s4" by (simp add: setTruth_touch_p)
        with touch_unresolved[of s c n ev inds nots s4] Inr q False
        show ?thesis by (auto simp: unresolvedCount_reset)
      qed
    qed
  qed
  have c2: "?Q s n [] ev" if "setTruth_parentsLoop_dom (Inr (s, n, [], ev))" for s n ev
    using that by (simp add: parentsLoop.psimps(1))
  have c3: "?Q s n (p # ps) ev"
    if d: "setTruth_parentsLoop_dom (Inr (s, n, p # ps, ev))"
    and p: "?P s (Ptr n) p ev"
    and ih: "\<And>inds nots s1. setTruth s (Ptr n) p ev = Inr (inds, nots, s1) \<Longrightarrow> ?Q s1 n ps ev"
    for s n p ps ev
  proof (intro allI impI)
    fix i d' s'
    assume r: "parentsLoop s n (p # ps) ev = Inr (i, d', s')"
    from r d obtain i1 d1 s1 i2 d2 where
      a: "setTruth s (Ptr n) p ev = Inr (i1, d1, s1)" and
      b: "parentsLoop s1 n ps ev = Inr (i2, d2, s')"
      by (auto simp: parentsLoop.psimps split: sum.splits)
    from p a have "unresolvedCount ev s1 \<le> unresolvedCount ev s" by blast
    moreover from ih[OF a] b have "unresolvedCount ev s' \<le> unresolvedCount ev s1" by blast
    ultimately show "unresolvedCount ev s' \<le> unresolvedCount ev s" by simp
  qed
  assume d0: "setTruth_parentsLoop_dom (Inl (s0, c0, n0, ev0))"
  have "?P s0 c0 n0 ev0"
    by (rule pinduct_touch(1)[where P = ?P and Q = ?Q, OF _ _ _ d0]) (rule c1 c2 c3; assumption)+
  moreover assume "setTruth s0 c0 n0 ev0 = Inr (i0, d0, s0')"
  ultimately show ?thesis by blast
qed

termination setTruth
proof (relation "inv_image (less_than <*lex*> less_than)
          (\<lambda>x. case x of
                 Inl (s, c, n, ev) \<Rightarrow> (unresolvedCount ev s, 0::nat)
               | Inr (s, n, ps, ev) \<Rightarrow> (unresolvedCount ev s, Suc (length ps)))", goal_cases)
  case 1
  show ?case by (intro wf_inv_image wf_lex_prod wf_less_than)
next
  case (2 s childNode n evID x x2 xa b xaa y xab xac xad ya)
  then have "touch s childNode n evID = Inr (True, xad, x, ya)"
    by (cases b; cases "emitIndicator (updNode y n (\<lambda>nd. nd\<lparr>truth := xaa\<rparr>)) n")
       (auto simp: touch_def Let_def)
  from touch_resolves_count[OF this] show ?case by simp
next
  case (3 s n parent ps evID)
  show ?case by simp
next
  case (4 s n parent ps evID b x y xa ya)
  then have "setTruth s (Ptr n) parent evID = Inr (x, xa, ya)" by simp
  with count_mono_p[OF "4"(4)] have "unresolvedCount evID ya \<le> unresolvedCount evID s"
    by blast
  then show ?case by auto
qed

declare setTruth.simps [simp del]

section \<open>Reasoning about \<open>setTruth\<close>\<close>

text \<open>\<open>setTruth\<close> is the step \<open>touch\<close>, followed by the loop over the parents.\<close>

lemma setTruth_touch:
  "setTruth s c n ev =
     (case touch s c n ev of
        Inl e \<Rightarrow> Inl e
      | Inr (b, inds, nots, s4) \<Rightarrow>
          if b then
            (case parentsLoop s4 n (Parents (nodes s4 ! n)) ev of
               Inl e \<Rightarrow> Inl e
             | Inr (pinds, pnots, s5) \<Rightarrow> Inr (inds @ pinds, nots @ pnots, s5))
          else Inr (inds, nots, s4))"
  unfolding setTruth.simps[of s c n ev] touch_def Let_def
  by (simp split: option.splits sum.splits prod.splits)

text \<open>Computation induction for \<open>setTruth\<close> and \<open>parentsLoop\<close>, in terms of \<open>touch\<close>.\<close>

lemma setTruth_induct:
  assumes step: "\<And>s c n ev.
      (\<And>inds nots s4. touch s c n ev = Inr (True, inds, nots, s4)
          \<Longrightarrow> Q s4 n (Parents (nodes s4 ! n)) ev) \<Longrightarrow> P s c n ev"
    and nil: "\<And>s n ev. Q s n [] ev"
    and cons: "\<And>s n p ps ev.
      P s (Ptr n) p ev \<Longrightarrow>
      (\<And>inds nots s1. setTruth s (Ptr n) p ev = Inr (inds, nots, s1) \<Longrightarrow> Q s1 n ps ev)
      \<Longrightarrow> Q s n (p # ps) ev"
  shows "P s0 c0 n0 ev0" and "Q s0' n0' ps0 ev0'"
proof -
  have c1: "P s c n ev"
    if ih: "\<And>x x2 xa b xaa y xab xac xad ya.
          \<lbrakk>n < length (nodes s); x = SiblingNots (nodes s ! n);
           deref s c = Some x2; truth x2 \<noteq> truthUnknown;
           xa = updNode s n (\<lambda>nd. resetNode nd ev);
           truth (nodes xa ! n) = truthUnknown;
           evalOperator xa c n = Inr b; (xaa, y) = b;
           xaa \<noteq> truthUnknown; xab = updNode y n (truth_update (\<lambda>_. xaa));
           xac = emitIndicator xab n; (xad, ya) = xac\<rbrakk>
          \<Longrightarrow> Q ya n (Parents (nodes ya ! n)) ev" for s c n ev
  proof (rule step)
    fix inds nots s4
    assume "touch s c n ev = Inr (True, inds, nots, s4)"
    then show "Q s4 n (Parents (nodes s4 ! n)) ev"
    proof (rule touch_raw)
      fix child0 setNodeTo s2
      assume a: "n < length (nodes s)" "deref s c = Some child0" "truth child0 \<noteq> truthUnknown"
        "truth (nodes (updNode s n (\<lambda>nd. resetNode nd ev)) ! n) = truthUnknown"
        "evalOperator (updNode s n (\<lambda>nd. resetNode nd ev)) c n = Inr (setNodeTo, s2)"
        "setNodeTo \<noteq> truthUnknown"
        "emitIndicator (updNode s2 n (\<lambda>nd. nd\<lparr>truth := setNodeTo\<rparr>)) n = (inds, s4)"
      show ?thesis
        by (rule ih[OF a(1) refl a(2) a(3) refl a(4) a(5) refl a(6) refl refl a(7)[symmetric]])
    qed
  qed
  have c3: "Q s n (p # ps) ev"
    if p: "P s (Ptr n) p ev"
    and ih: "\<And>b x y xa ya.
          \<lbrakk>setTruth s (Ptr n) p ev = Inr b; (x, y) = b; (xa, ya) = y\<rbrakk>
          \<Longrightarrow> Q ya n ps ev" for s n p ps ev
    by (rule cons[OF p]) (rule ih[OF _ refl refl])
  show "P s0 c0 n0 ev0"
    by (rule setTruth_parentsLoop.induct(1)[where P=P and Q=Q]) (auto intro: c1 nil c3)
  show "Q s0' n0' ps0 ev0'"
    by (rule setTruth_parentsLoop.induct(2)[where P=P and Q=Q]) (auto intro: c1 nil c3)
qed

text \<open>A relation between heaps that every step establishes holds across the whole call.\<close>

lemma setTruth_rel:
  assumes rfl: "\<And>ev s. R ev s s"
    and trn: "\<And>ev s s' s''. R ev s s' \<Longrightarrow> R ev s' s'' \<Longrightarrow> R ev s s''"
    and tch: "\<And>ev s c n b inds nots s'. touch s c n ev = Inr (b, inds, nots, s') \<Longrightarrow> R ev s s'"
  shows "setTruth s c n ev = Inr (i, d, s') \<Longrightarrow> R ev s s'"
    and "parentsLoop s0 n0 ps ev0 = Inr (i0, d0, s0') \<Longrightarrow> R ev0 s0 s0'"
proof (induction s c n ev and s0 n0 ps ev0 arbitrary: i d s' and i0 d0 s0' rule: setTruth_induct)
  case (1 s c n ev)
  from "1.prems" obtain b inds nots s4 where
    t: "touch s c n ev = Inr (b, inds, nots, s4)"
    by (auto simp: setTruth_touch split: sum.splits)
  show ?case
  proof (cases b)
    case True
    with "1.prems" t obtain pinds pnots where
      "parentsLoop s4 n (Parents (nodes s4 ! n)) ev = Inr (pinds, pnots, s')"
      by (auto simp: setTruth_touch split: sum.splits)
    with "1.IH"[of inds nots s4] t True have "R ev s4 s'" by simp
    with tch[OF t] show ?thesis by (rule trn)
  next
    case False
    with "1.prems" t have "s' = s4" by (simp add: setTruth_touch)
    with tch[OF t] show ?thesis by simp
  qed
next
  case (2 s n ev)
  then show ?case by (simp add: rfl)
next
  case (3 s n p ps ev)
  from "3.prems" obtain i1 d1 s1 i2 d2 where
    a: "setTruth s (Ptr n) p ev = Inr (i1, d1, s1)" and
    b: "parentsLoop s1 n ps ev = Inr (i2, d2, s0')"
    by (auto split: sum.splits)
  from "3.IH"(1)[OF a] "3.IH"(2)[OF a b] show ?case by (rule trn)
qed

section \<open>Facts about the step\<close>

lemma resetNode_fields [simp]:
  "Operator (resetNode nd ev) = Operator nd"
  "Children (resetNode nd ev) = Children nd"
  "Parents (resetNode nd ev) = Parents nd"
  "SiblingNots (resetNode nd ev) = SiblingNots nd"
  "Indicator (resetNode nd ev) = Indicator nd"
  "UseOriginalIndicatorValue (resetNode nd ev) = UseOriginalIndicatorValue nd"
  "ID (resetNode nd ev) = ID nd"
  "Comment (resetNode nd ev) = Comment nd"
  "Ref (resetNode nd ev) = Ref nd"
  "eventID (resetNode nd ev) = ev"
  by (simp_all add: resetNode_def Let_def)

lemma truth_resetNode:
  "truth (resetNode nd ev) = truthUnknown \<longleftrightarrow> \<not> resolved ev nd"
  by (auto simp: resetNode_def resolved_def Let_def)

lemma deref_updNode_Some:
  "deref s c = Some ch \<Longrightarrow> deref (updNode s n f) c \<noteq> None"
  by (cases c) (auto split: if_splits)

lemma updNode_same [simp]: "updNode s n (\<lambda>nd. nd) = s"
  by (simp add: updNode_def)

lemma resetNode_resolved: "resolved ev nd \<Longrightarrow> resetNode nd ev = nd"
  by (simp add: resolved_def resetNode_def)

lemma updNode_reset_resolved:
  "resolved ev (nodes s ! n) \<Longrightarrow> updNode s n (\<lambda>nd. resetNode nd ev) = s"
  by (simp add: updNode_def resetNode_resolved)

lemma evalOperator_heap:
  assumes "evalOperator s c n = Inr (t, s2)"
  shows "indicators s2 = indicators s \<and>
         (\<exists>p. nodes s2 = (nodes s)[n := (nodes s ! n)\<lparr>Pattern := p\<rparr>] \<and>
              (Operator (nodes s ! n) = [] \<longrightarrow> p = Pattern (nodes s ! n)))"
proof -
  have id: "nodes s = (nodes s)[n := (nodes s ! n)\<lparr>Pattern := Pattern (nodes s ! n)\<rparr>]"
    by simp
  from assms have "s2 = s \<or> (Operator (nodes s ! n) \<noteq> [] \<and>
       (\<exists>p. s2 = updNode s n (\<lambda>nd. nd\<lparr>Pattern := p\<rparr>)))"
    unfolding evalOperator_def Let_def
    by (auto split: option.splits if_splits sum.splits list.splits)
  then show ?thesis
  proof
    assume "s2 = s"
    with id show ?thesis by blast
  next
    assume "Operator (nodes s ! n) \<noteq> [] \<and> (\<exists>p. s2 = updNode s n (\<lambda>nd. nd\<lparr>Pattern := p\<rparr>))"
    then show ?thesis by auto
  qed
qed

lemma emitIndicator_inds:
  "emitIndicator s n = (inds, s') \<Longrightarrow>
   inds = (if truth (nodes s ! n) = truthTrue
           then (case Indicator (nodes s ! n) of None \<Rightarrow> [] | Some a \<Rightarrow> [a]) else [])"
  unfolding emitIndicator_def Let_def by (auto split: option.splits if_splits)

lemma emitIndicator_other:
  "emitIndicator s n = (inds, s') \<Longrightarrow> a \<notin> set inds \<Longrightarrow> indicators s' a = indicators s a"
  unfolding emitIndicator_def Let_def by (auto split: option.splits if_splits)

lemma emitIndicator_meta:
  "emitIndicator s n = (inds, s') \<Longrightarrow>
   Id (indicators s' a) = Id (indicators s a) \<and>
   Description (indicators s' a) = Description (indicators s a) \<and>
   Category (indicators s' a) = Category (indicators s a) \<and>
   Author (indicators s' a) = Author (indicators s a) \<and>
   Source (indicators s' a) = Source (indicators s a)"
  unfolding emitIndicator_def Let_def by (auto split: option.splits if_splits)

text \<open>The four ways in which the step returns.\<close>

lemma touch_Inr:
  assumes "touch s c n ev = Inr (b, inds, nots, s')"
  obtains
    (unknown_child) child0 where "n < length (nodes s)" "deref s c = Some child0"
      "truth child0 = truthUnknown" "\<not> b" "inds = []" "nots = []" "s' = s"
  | (already) child0 where "n < length (nodes s)" "deref s c = Some child0"
      "truth child0 \<noteq> truthUnknown" "resolved ev (nodes s ! n)"
      "\<not> b" "inds = []" "nots = SiblingNots (nodes s ! n)" "s' = s"
  | (stays) child0 where "n < length (nodes s)" "deref s c = Some child0"
      "truth child0 \<noteq> truthUnknown" "\<not> resolved ev (nodes s ! n)"
      "evalOperator (updNode s n (\<lambda>nd. resetNode nd ev)) c n
         = Inr (truthUnknown, updNode s n (\<lambda>nd. resetNode nd ev))"
      "\<not> b" "inds = []" "nots = SiblingNots (nodes s ! n)"
      "s' = updNode s n (\<lambda>nd. resetNode nd ev)"
  | (resolves) child0 setNodeTo s2 where "n < length (nodes s)" "deref s c = Some child0"
      "truth child0 \<noteq> truthUnknown" "\<not> resolved ev (nodes s ! n)"
      "evalOperator (updNode s n (\<lambda>nd. resetNode nd ev)) c n = Inr (setNodeTo, s2)"
      "setNodeTo \<noteq> truthUnknown"
      "emitIndicator (updNode s2 n (\<lambda>nd. nd\<lparr>truth := setNodeTo\<rparr>)) n = (inds, s')"
      "b" "nots = SiblingNots (nodes s ! n)"
proof -
  from assms have n: "n < length (nodes s)"
    by (auto simp: touch_def split: if_splits)
  from assms n obtain child0 where c: "deref s c = Some child0"
    by (auto simp: touch_def split: option.splits)
  show ?thesis
  proof (cases "truth child0 = truthUnknown")
    case True
    with assms n c show ?thesis by (intro unknown_child[of child0]) (auto simp: touch_def)
  next
    case ck: False
    show ?thesis
    proof (cases "resolved ev (nodes s ! n)")
      case True
      with n have "truth (nodes (updNode s n (\<lambda>nd. resetNode nd ev)) ! n) \<noteq> truthUnknown"
        by (simp add: truth_resetNode)
      with assms n c ck True show ?thesis
        by (intro already[of child0]) (auto simp: touch_def Let_def updNode_reset_resolved)
    next
      case nr: False
      with n have u: "truth (nodes (updNode s n (\<lambda>nd. resetNode nd ev)) ! n) = truthUnknown"
        by (simp add: truth_resetNode)
      from assms n c ck u obtain t s2 where
        e: "evalOperator (updNode s n (\<lambda>nd. resetNode nd ev)) c n = Inr (t, s2)"
        by (auto simp: touch_def Let_def split: sum.splits)
      show ?thesis
      proof (cases "t = truthUnknown")
        case True
        with e have "s2 = updNode s n (\<lambda>nd. resetNode nd ev)"
          by (auto dest: evalOperator_Unknown)
        with assms n c ck u e True nr show ?thesis
          by (intro stays[of child0]) (auto simp: touch_def Let_def)
      next
        case False
        with assms n c ck u e nr show ?thesis
          by (intro resolves[of child0 t s2])
             (auto simp: touch_def Let_def split: prod.splits)
      qed
    qed
  qed
qed

lemma nth_update_cases:
  "j < length xs \<Longrightarrow> (xs[i := x]) ! j = (if i = j then x else xs ! j)"
  by (cases "i = j") simp_all

lemma sameShape_refl [simp]: "sameShape a a"
  by (simp add: sameShape_def)

lemma sameShape_trans: "sameShape a b \<Longrightarrow> sameShape b c \<Longrightarrow> sameShape a c"
  by (simp add: sameShape_def)

lemma sameShape_resetNode [simp]: "sameShape nd (resetNode nd ev)"
  by (simp add: sameShape_def) (simp add: resetNode_def Let_def)

lemma structureKept_refl: "structureKept s s"
  by (simp add: structureKept_def)

lemma structureKept_trans:
  "structureKept s s' \<Longrightarrow> structureKept s' s'' \<Longrightarrow> structureKept s s''"
  unfolding structureKept_def by (auto intro: sameShape_trans)

lemma structureKept_updNode:
  "sameShape (nodes s ! n) (f (nodes s ! n)) \<Longrightarrow> structureKept s (updNode s n f)"
  by (auto simp: structureKept_def nth_update_cases)

lemma touch_resolves_shape:
  assumes n: "n < length (nodes s)"
    and e: "evalOperator (updNode s n (\<lambda>nd. resetNode nd ev)) c n = Inr (t, s2)"
    and em: "emitIndicator (updNode s2 n (\<lambda>nd. nd\<lparr>truth := t\<rparr>)) n = (inds, s')"
  shows "\<exists>p. nodes s' = (nodes s)[n := (resetNode (nodes s ! n) ev)\<lparr>Pattern := p, truth := t\<rparr>] \<and>
             (Operator (nodes s ! n) = [] \<longrightarrow> p = Pattern (nodes s ! n))"
proof -
  from evalOperator_heap[OF e] n obtain p where
    p: "nodes s2 = (nodes s)[n := (resetNode (nodes s ! n) ev)\<lparr>Pattern := p\<rparr>]"
    and l: "Operator (nodes s ! n) = [] \<longrightarrow> p = Pattern (resetNode (nodes s ! n) ev)"
    by auto
  from l have "Operator (nodes s ! n) = [] \<longrightarrow> p = Pattern (nodes s ! n)"
    by (simp add: resetNode_def Let_def)
  moreover from nodes_emitIndicator[OF em] p n
  have "nodes s' = (nodes s)[n := (resetNode (nodes s ! n) ev)\<lparr>Pattern := p, truth := t\<rparr>]"
    by simp
  ultimately show ?thesis by blast
qed

lemma touch_structure:
  assumes "touch s c n ev = Inr (b, inds, nots, s')"
  shows "structureKept s s'"
  using assms
proof (cases rule: touch_Inr)
  case (unknown_child child0)
  then show ?thesis by (simp add: structureKept_refl)
next
  case (already child0)
  then show ?thesis by (simp add: structureKept_refl)
next
  case (stays child0)
  then show ?thesis by (simp add: structureKept_updNode)
next
  case (resolves child0 t s2)
  from touch_resolves_shape[OF resolves(1,5,7)] obtain p where
    p: "nodes s' = (nodes s)[n := (resetNode (nodes s ! n) ev)\<lparr>Pattern := p, truth := t\<rparr>]"
    and l: "Operator (nodes s ! n) = [] \<longrightarrow> p = Pattern (nodes s ! n)" by blast
  have sh: "sameShape (nodes s ! n) ((resetNode (nodes s ! n) ev)\<lparr>Pattern := p, truth := t\<rparr>)"
    using l by (simp add: sameShape_def)
  from evalOperator_heap[OF resolves(5)] have i2: "indicators s2 = indicators s" by simp
  from emitIndicator_meta[OF resolves(7)] i2
  have meta: "\<And>a. Id (indicators s' a) = Id (indicators s a) \<and>
          Description (indicators s' a) = Description (indicators s a) \<and>
          Category (indicators s' a) = Category (indicators s a) \<and>
          Author (indicators s' a) = Author (indicators s a) \<and>
          Source (indicators s' a) = Source (indicators s a)" by simp
  show ?thesis
    unfolding structureKept_def using p sh meta by (auto simp: nth_update_cases)
qed

lemma setTruth_structure:
  "setTruth s c n ev = Inr (i, d, s') \<Longrightarrow> structureKept s s'"
  by (rule setTruth_rel(1)[where R = "\<lambda>ev. structureKept"])
     (auto intro: structureKept_refl structureKept_trans touch_structure)

lemma parentsLoop_structure:
  "parentsLoop s n ps ev = Inr (i, d, s') \<Longrightarrow> structureKept s s'"
  by (rule setTruth_rel(2)[where R = "\<lambda>ev. structureKept"])
     (auto intro: structureKept_refl structureKept_trans touch_structure)

lemma resolvedKept_refl: "resolvedKept ev s s"
  by (simp add: resolvedKept_def)

lemma resolvedKept_trans:
  "resolvedKept ev s s' \<Longrightarrow> resolvedKept ev s' s'' \<Longrightarrow> resolvedKept ev s s''"
  unfolding resolvedKept_def by auto

lemma touch_resolvedKept:
  assumes "touch s c n ev = Inr (b, inds, nots, s')"
  shows "resolvedKept ev s s'"
  using assms
proof (cases rule: touch_Inr)
  case (unknown_child child0)
  then show ?thesis by (simp add: resolvedKept_refl)
next
  case (already child0)
  then show ?thesis by (simp add: resolvedKept_refl)
next
  case (stays child0)
  then show ?thesis by (auto simp: resolvedKept_def nth_update_cases)
next
  case (resolves child0 t s2)
  from touch_resolves_shape[OF resolves(1,5,7)] resolves(4)
  show ?thesis by (auto simp: resolvedKept_def nth_update_cases)
qed


lemma parentsLoop_resolvedKept:
  "parentsLoop s n ps ev = Inr (i, d, s') \<Longrightarrow> resolvedKept ev s s'"
  by (rule setTruth_rel(2)[where R = resolvedKept])
     (auto intro: resolvedKept_refl resolvedKept_trans touch_resolvedKept)

section \<open>Unrecognised operators\<close>

text \<open>
  Claim C9. When the touched node has a non-empty operator that is none of OR, AND and NOT,
  and the child's truth is known, the call returns normally: it emits no indicator, it
  returns only the sibling negations of the node itself, and the heap after the call is the
  heap before it with the lazy reset applied to the node, so no parent has been touched. A
  node that was not resolved for the event has truth Unknown afterwards.
\<close>

theorem unrecognised_operator_non_fatal:
  assumes n: "n < length (nodes s)"
    and op: "Operator (nodes s ! n) \<noteq> []" "Operator (nodes s ! n) \<noteq> ''OR''"
      "Operator (nodes s ! n) \<noteq> ''AND''" "Operator (nodes s ! n) \<noteq> ''NOT''"
    and c: "deref s c = Some child" "truth child \<noteq> truthUnknown"
  shows "setTruth s c n ev
           = Inr ([], SiblingNots (nodes s ! n), updNode s n (\<lambda>nd. resetNode nd ev))
         \<and> (\<not> resolved ev (nodes s ! n) \<longrightarrow>
              truth (nodes (updNode s n (\<lambda>nd. resetNode nd ev)) ! n) = truthUnknown)"
proof -
  let ?s1 = "updNode s n (\<lambda>nd. resetNode nd ev)"
  from c(1) obtain ch1 where c1: "deref ?s1 c = Some ch1"
    using deref_updNode_Some[of s c child n] by auto
  from n op c1 have e: "evalOperator ?s1 c n = Inr (truthUnknown, ?s1)"
    by (simp add: evalOperator_def Let_def)
  from n c e have "touch s c n ev = Inr (False, [], SiblingNots (nodes s ! n), ?s1)"
    by (simp add: touch_def Let_def)
  then have "setTruth s c n ev = Inr ([], SiblingNots (nodes s ! n), ?s1)"
    by (simp add: setTruth_touch)
  moreover from n have "\<not> resolved ev (nodes s ! n) \<longrightarrow> truth (nodes ?s1 ! n) = truthUnknown"
    by (simp add: truth_resetNode)
  ultimately show ?thesis by blast
qed

theorem unrecognised_operator_non_fatal_witness:
  "setTruth xorHeap trueNode 0 7
     = Inr ([], SiblingNots (nodes xorHeap ! 0), updNode xorHeap 0 (\<lambda>nd. resetNode nd 7))
   \<and> truth (nodes (updNode xorHeap 0 (\<lambda>nd. resetNode nd 7)) ! 0) = truthUnknown
   \<and> SiblingNots (nodes xorHeap ! 0) = [5]"
  using unrecognised_operator_non_fatal[of 0 xorHeap trueNode "zeroNode\<lparr>truth := truthTrue\<rparr>" 7]
  by (simp add: xorHeap_def zeroNode_def resolved_def)

section \<open>What a call leaves unchanged\<close>

text \<open>The equations that run a call on a concrete heap.\<close>

lemmas run_simps = Fire_def ResolveNot_def setTruth_touch touch_def evalOperator_def
  emitIndicator_def updNode_def resetNode_def zeroNode_def Let_def

lemma Fire_orHeap: "Fire orHeap 0 1 = Inr ([0], [], orHeapFired)"
  by (simp add: run_simps orHeap_def orHeapFired_def leaf_def)

text \<open>
  Claim C8, as stated, fails: when the leaf of \<open>orHeap\<close> fires, the OR node takes the
  pattern of the leaf, and the indicator object of the OR node takes its value from that
  pattern. The pattern of a node and the type and value of an indicator are written by
  the call.
\<close>

theorem structure_unchanged_counterexample:
  "Fire orHeap 0 1 = Inr ([0], [], orHeapFired) \<and>
   Pattern (nodes orHeapFired ! 1) \<noteq> Pattern (nodes orHeap ! 1) \<and>
   Indicator.Value (indicators orHeapFired 0) \<noteq> Indicator.Value (indicators orHeap 0)"
  by (simp add: run_simps orHeap_def orHeapFired_def leaf_def torIndicator_def)

text \<open>
  Claim C8, amended. A call of \<open>Fire\<close> or \<open>ResolveNot\<close> that returns keeps the number of
  nodes and, in every node, the operator, the children, the parents, the sibling
  negations, the indicator pointer, the flag \<open>UseOriginalIndicatorValue\<close>, the ID, the
  comment and the reference; it keeps the pattern of every node without an operator; and
  it keeps every field of every indicator object other than the type and the value.
\<close>

theorem structure_kept_but_pattern_and_indicator_value:
  assumes "Fire s n ev = Inr (inds, nots, s') \<or> ResolveNot s n ev = Inr (inds, nots, s')"
  shows "length (nodes s') = length (nodes s) \<and>
     (\<forall>i < length (nodes s).
        Operator (nodes s' ! i) = Operator (nodes s ! i) \<and>
        Children (nodes s' ! i) = Children (nodes s ! i) \<and>
        Parents (nodes s' ! i) = Parents (nodes s ! i) \<and>
        SiblingNots (nodes s' ! i) = SiblingNots (nodes s ! i) \<and>
        Indicator (nodes s' ! i) = Indicator (nodes s ! i) \<and>
        UseOriginalIndicatorValue (nodes s' ! i) = UseOriginalIndicatorValue (nodes s ! i) \<and>
        ID (nodes s' ! i) = ID (nodes s ! i) \<and>
        Comment (nodes s' ! i) = Comment (nodes s ! i) \<and>
        Ref (nodes s' ! i) = Ref (nodes s ! i) \<and>
        (Operator (nodes s ! i) = [] \<longrightarrow> Pattern (nodes s' ! i) = Pattern (nodes s ! i))) \<and>
     (\<forall>a. Id (indicators s' a) = Id (indicators s a) \<and>
          Description (indicators s' a) = Description (indicators s a) \<and>
          Category (indicators s' a) = Category (indicators s a) \<and>
          Author (indicators s' a) = Author (indicators s a) \<and>
          Source (indicators s' a) = Source (indicators s a))"
proof -
  from assms have "structureKept s s'"
    unfolding Fire_def ResolveNot_def by (auto dest: setTruth_structure)
  then show ?thesis
    unfolding structureKept_def sameShape_def by simp
qed

theorem structure_kept_but_pattern_and_indicator_value_witness:
  "Fire orHeap 0 1 = Inr ([0], [], orHeapFired) \<and>
   length (nodes orHeapFired) = length (nodes orHeap) \<and>
   Operator (nodes orHeapFired ! 1) = Operator (nodes orHeap ! 1) \<and>
   Pattern (nodes orHeapFired ! 0) = Pattern (nodes orHeap ! 0) \<and>
   Id (indicators orHeapFired 0) = Id (indicators orHeap 0)"
proof -
  have f: "Fire orHeap 0 1 = Inr ([0], [], orHeapFired)" by (rule Fire_orHeap)
  have l: "(1::nat) < length (nodes orHeap)" "(0::nat) < length (nodes orHeap)"
    "Operator (nodes orHeap ! 0) = []"
    by (simp_all add: orHeap_def leaf_def zeroNode_def)
  from structure_kept_but_pattern_and_indicator_value[of orHeap 0 1 "[0]" "[]" orHeapFired] f l
  show ?thesis by blast
qed

section \<open>The lazy reset\<close>

lemma updNode_updNode: "updNode (updNode s n f) n g = updNode s n (\<lambda>nd. g (f nd))"
  by (cases "n < length (nodes s)") (simp_all add: updNode_def list_update_beyond)

lemma touch_cong:
  assumes "length (nodes s0) = length (nodes s)"
    and "SiblingNots (nodes s0 ! n) = SiblingNots (nodes s ! n)"
    and "deref s c = Some ch" "deref s0 c = Some ch0" "truth ch \<noteq> truthUnknown"
      "truth ch0 \<noteq> truthUnknown"
    and "updNode s0 n (\<lambda>nd. resetNode nd ev) = updNode s n (\<lambda>nd. resetNode nd ev)"
  shows "touch s0 c n ev = touch s c n ev"
proof -
  from assms(2) have sn: "SiblingNots (nodes s ! n) = SiblingNots (nodes s0 ! n)" by simp
  show ?thesis
    unfolding touch_def assms(1) assms(3) assms(4) assms(7) sn Let_def
    using assms(5,6) by simp
qed

lemma resetNode_stale_truth:
  "eventID nd \<noteq> ev \<Longrightarrow> resetNode (nd\<lparr>truth := t\<rparr>) ev = resetNode nd ev"
  by (simp add: resetNode_def Let_def)

lemma resetNode_stale_Pattern:
  "eventID nd \<noteq> ev \<Longrightarrow> Operator nd \<noteq> [] \<Longrightarrow> resetNode (nd\<lparr>Pattern := p\<rparr>) ev = resetNode nd ev"
  by (simp add: resetNode_def Let_def)

lemma setTruth_touch_eq:
  "touch s0 c n ev = touch s c n ev \<Longrightarrow> setTruth s0 c n ev = setTruth s c n ev"
  by (simp add: setTruth_touch)

lemma setTruth_eventID:
  assumes r: "setTruth s c n ev = Inr (inds, nots, s')"
    and c: "deref s c = Some ch" "truth ch \<noteq> truthUnknown"
  shows "eventID (nodes s' ! n) = ev"
proof -
  from r obtain b i1 d1 s4 where t: "touch s c n ev = Inr (b, i1, d1, s4)"
    by (auto simp: setTruth_touch split: sum.splits)
  from t have n: "n < length (nodes s)" by (auto simp: touch_def split: if_splits)
  have "eventID (nodes s4 ! n) = ev \<and> (b \<longrightarrow> resolved ev (nodes s4 ! n))"
    using t
  proof (cases rule: touch_Inr)
    case (unknown_child child0)
    with c show ?thesis by simp
  next
    case (already child0)
    then show ?thesis by (simp add: resolved_def)
  next
    case (stays child0)
    then show ?thesis by simp
  next
    case (resolves child0 t s2)
    from touch_resolves_shape[OF resolves(1,5,7)] resolves
    show ?thesis by (auto simp: resolved_def)
  qed
  then have e4: "eventID (nodes s4 ! n) = ev" and b: "b \<longrightarrow> resolved ev (nodes s4 ! n)"
    by simp_all
  from touch_structure[OF t] have l4: "length (nodes s4) = length (nodes s)"
    by (simp add: structureKept_def)
  show ?thesis
  proof (cases b)
    case True
    with r t obtain pinds pnots where
      "parentsLoop s4 n (Parents (nodes s4 ! n)) ev = Inr (pinds, pnots, s')"
      by (auto simp: setTruth_touch split: sum.splits)
    from parentsLoop_resolvedKept[OF this] b True n l4 have "nodes s' ! n = nodes s4 ! n"
      by (simp add: resolvedKept_def)
    with e4 show ?thesis by simp
  next
    case False
    with r t have "s' = s4" by (simp add: setTruth_touch)
    with e4 show ?thesis by simp
  qed
qed

text \<open>
  Claim C5. When a propagation touch (a call whose child has a known truth, the child not
  being the node itself) reaches a node whose stored event ID differs from the event ID of
  the call, the call has the result it has on the heap in which the truth of the node is
  already Unknown: the stale truth is not seen by anything the call does. The reset gives
  the node truth Unknown and the event ID of the call, and when the call returns the node
  carries the event ID of the call.
\<close>

theorem lazy_reset_before_evaluation:
  assumes n: "n < length (nodes s)"
    and stale: "eventID (nodes s ! n) \<noteq> ev"
    and c: "deref s c = Some child" "truth child \<noteq> truthUnknown" "c \<noteq> Ptr n"
  shows "setTruth s c n ev = setTruth (updNode s n (\<lambda>nd. nd\<lparr>truth := truthUnknown\<rparr>)) c n ev
       \<and> truth (resetNode (nodes s ! n) ev) = truthUnknown
       \<and> eventID (resetNode (nodes s ! n) ev) = ev
       \<and> (\<forall>inds nots s'. setTruth s c n ev = Inr (inds, nots, s') \<longrightarrow>
             eventID (nodes s' ! n) = ev)"
proof -
  let ?s0 = "updNode s n (\<lambda>nd. nd\<lparr>truth := truthUnknown\<rparr>)"
  from c have d0: "deref ?s0 c = Some child"
    by (cases c) (auto split: if_splits)
  from stale have "updNode ?s0 n (\<lambda>nd. resetNode nd ev) = updNode s n (\<lambda>nd. resetNode nd ev)"
    by (simp add: updNode_updNode resetNode_stale_truth)
  with n c d0 have "touch ?s0 c n ev = touch s c n ev"
    by (intro touch_cong[of _ _ _ _ child child]) simp_all
  then have "setTruth s c n ev = setTruth ?s0 c n ev"
    by (rule setTruth_touch_eq[symmetric])
  moreover from stale have "truth (resetNode (nodes s ! n) ev) = truthUnknown"
    by (simp add: resetNode_def Let_def)
  moreover have "\<forall>inds nots s'. setTruth s c n ev = Inr (inds, nots, s') \<longrightarrow>
             eventID (nodes s' ! n) = ev"
    using c(1,2) by (blast intro: setTruth_eventID)
  ultimately show ?thesis by simp
qed


theorem lazy_reset_before_evaluation_witness:
  "setTruth orHeapFired trueNode 1 2
     = setTruth (updNode orHeapFired 1 (\<lambda>nd. nd\<lparr>truth := truthUnknown\<rparr>)) trueNode 1 2
   \<and> truth (nodes orHeapFired ! 1) = truthTrue
   \<and> eventID (nodes orHeapFired ! 1) = 1
   \<and> truth (resetNode (nodes orHeapFired ! 1) 2) = truthUnknown
   \<and> eventID (resetNode (nodes orHeapFired ! 1) 2) = 2"
  using lazy_reset_before_evaluation[of 1 orHeapFired 2 trueNode "zeroNode\<lparr>truth := truthTrue\<rparr>"]
  by (simp add: orHeapFired_def zeroNode_def)

lemma deref_Pattern_update:
  "deref s c = Some ch \<Longrightarrow>
   \<exists>ch0. deref (updNode s n (\<lambda>nd. nd\<lparr>Pattern := p\<rparr>)) c = Some ch0 \<and> truth ch0 = truth ch"
  by (cases c) (auto simp: nth_update_cases split: if_splits)

text \<open>
  Claim C10. The reset of a stale node clears the pattern exactly when the node has an
  operator. For such a node a propagation touch has the result it has on the heap in
  which the pattern of the node is already nil, so a pattern adopted during an earlier
  event takes no part in the new event. A node without an operator keeps its pattern
  through the reset and through every call; a node that is not stale is not reset.
\<close>

theorem reset_clears_pattern_of_operator_nodes_only:
  assumes i: "i < length (nodes s)"
    and c: "deref s c = Some child" "truth child \<noteq> truthUnknown"
  shows "(eventID (nodes s ! i) \<noteq> ev \<and> Operator (nodes s ! i) \<noteq> [] \<longrightarrow>
            Pattern (resetNode (nodes s ! i) ev) = None \<and>
            setTruth s c i ev = setTruth (updNode s i (\<lambda>nd. nd\<lparr>Pattern := None\<rparr>)) c i ev)
       \<and> (Operator (nodes s ! i) = [] \<longrightarrow>
            Pattern (resetNode (nodes s ! i) ev) = Pattern (nodes s ! i) \<and>
            (\<forall>m inds nots s'. setTruth s c m ev = Inr (inds, nots, s') \<longrightarrow>
                Pattern (nodes s' ! i) = Pattern (nodes s ! i)))
       \<and> (eventID (nodes s ! i) = ev \<longrightarrow> resetNode (nodes s ! i) ev = nodes s ! i)"
proof (intro conjI impI)
  assume a: "eventID (nodes s ! i) \<noteq> ev \<and> Operator (nodes s ! i) \<noteq> []"
  then show "Pattern (resetNode (nodes s ! i) ev) = None"
    by (simp add: resetNode_def Let_def)
  let ?s0 = "updNode s i (\<lambda>nd. nd\<lparr>Pattern := None\<rparr>)"
  from deref_Pattern_update[OF c(1), of i None] c(2) obtain ch0 where
    d0: "deref ?s0 c = Some ch0" "truth ch0 \<noteq> truthUnknown" by auto
  from a have "updNode ?s0 i (\<lambda>nd. resetNode nd ev) = updNode s i (\<lambda>nd. resetNode nd ev)"
    by (simp add: updNode_updNode resetNode_stale_Pattern)
  with i c d0 have "touch ?s0 c i ev = touch s c i ev"
    by (intro touch_cong[of _ _ _ _ child ch0]) simp_all
  then show "setTruth s c i ev = setTruth ?s0 c i ev"
    by (rule setTruth_touch_eq[symmetric])
next
  assume "Operator (nodes s ! i) = []"
  then show "Pattern (resetNode (nodes s ! i) ev) = Pattern (nodes s ! i)"
    by (simp add: resetNode_def Let_def)
next
  assume l: "Operator (nodes s ! i) = []"
  show "\<forall>m inds nots s'. setTruth s c m ev = Inr (inds, nots, s') \<longrightarrow>
                Pattern (nodes s' ! i) = Pattern (nodes s ! i)"
  proof (intro allI impI)
    fix m inds nots s'
    assume "setTruth s c m ev = Inr (inds, nots, s')"
    from setTruth_structure[OF this] i l show "Pattern (nodes s' ! i) = Pattern (nodes s ! i)"
      by (simp add: structureKept_def sameShape_def)
  qed
next
  assume "eventID (nodes s ! i) = ev"
  then show "resetNode (nodes s ! i) ev = nodes s ! i"
    by (simp add: resetNode_def)
qed

theorem reset_clears_pattern_of_operator_nodes_only_witness:
  "Pattern (nodes orHeapFired ! 1) \<noteq> None
   \<and> Pattern (resetNode (nodes orHeapFired ! 1) 2) = None
   \<and> setTruth orHeapFired trueNode 1 2
       = setTruth (updNode orHeapFired 1 (\<lambda>nd. nd\<lparr>Pattern := None\<rparr>)) trueNode 1 2
   \<and> Pattern (resetNode (nodes orHeapFired ! 0) 2) = Pattern (nodes orHeap ! 0)
   \<and> Pattern (nodes orHeap ! 0) \<noteq> None"
proof -
  have p: "1 < length (nodes orHeapFired)" "0 < length (nodes orHeapFired)"
    by (simp_all add: orHeapFired_def)
  have d: "deref orHeapFired trueNode = Some (zeroNode\<lparr>truth := truthTrue\<rparr>)" by simp
  have k: "truth (zeroNode\<lparr>truth := truthTrue\<rparr>) \<noteq> truthUnknown" by simp
  have a1: "eventID (nodes orHeapFired ! 1) \<noteq> 2 \<and> Operator (nodes orHeapFired ! 1) \<noteq> []"
    and a0: "Operator (nodes orHeapFired ! 0) = []"
    by (simp_all add: orHeapFired_def leaf_def zeroNode_def)
  from reset_clears_pattern_of_operator_nodes_only[OF p(1) d k, of 2] a1
  have c1: "Pattern (resetNode (nodes orHeapFired ! 1) 2) = None \<and>
     setTruth orHeapFired trueNode 1 2
       = setTruth (updNode orHeapFired 1 (\<lambda>nd. nd\<lparr>Pattern := None\<rparr>)) trueNode 1 2"
    by blast
  from reset_clears_pattern_of_operator_nodes_only[OF p(2) d k, of 2] a0
  have c0: "Pattern (resetNode (nodes orHeapFired ! 0) 2) = Pattern (nodes orHeapFired ! 0)"
    by blast
  have e: "Pattern (nodes orHeapFired ! 1) \<noteq> None"
    "Pattern (nodes orHeapFired ! 0) = Pattern (nodes orHeap ! 0)"
    "Pattern (nodes orHeap ! 0) \<noteq> None"
    by (simp_all add: orHeapFired_def orHeap_def leaf_def zeroNode_def)
  from c1 c0 e show ?thesis by metis
qed

section \<open>Well-formed heaps: a call returns\<close>

lemma wellFormed_nth:
  "wellFormed s \<longleftrightarrow>
     (\<forall>i < length (nodes s).
        (\<forall>p \<in> set (Parents (nodes s ! i)). p < length (nodes s)) \<and>
        (\<forall>c \<in> set (Children (nodes s ! i)). c < length (nodes s)) \<and>
        (Operator (nodes s ! i) = ''AND'' \<longrightarrow> Children (nodes s ! i) \<noteq> []))"
  unfolding wellFormed_def list_all_iff
proof
  assume a: "\<forall>nd \<in> set (nodes s).
       (\<forall>p \<in> set (Parents nd). p < length (nodes s)) \<and>
       (\<forall>c \<in> set (Children nd). c < length (nodes s)) \<and>
       (Operator nd = ''AND'' \<longrightarrow> Children nd \<noteq> [])"
  show "\<forall>i < length (nodes s).
        (\<forall>p \<in> set (Parents (nodes s ! i)). p < length (nodes s)) \<and>
        (\<forall>c \<in> set (Children (nodes s ! i)). c < length (nodes s)) \<and>
        (Operator (nodes s ! i) = ''AND'' \<longrightarrow> Children (nodes s ! i) \<noteq> [])"
  proof (intro allI impI)
    fix i assume "i < length (nodes s)"
    then have "nodes s ! i \<in> set (nodes s)" by simp
    with a show "(\<forall>p \<in> set (Parents (nodes s ! i)). p < length (nodes s)) \<and>
        (\<forall>c \<in> set (Children (nodes s ! i)). c < length (nodes s)) \<and>
        (Operator (nodes s ! i) = ''AND'' \<longrightarrow> Children (nodes s ! i) \<noteq> [])" by blast
  qed
next
  assume a: "\<forall>i < length (nodes s).
        (\<forall>p \<in> set (Parents (nodes s ! i)). p < length (nodes s)) \<and>
        (\<forall>c \<in> set (Children (nodes s ! i)). c < length (nodes s)) \<and>
        (Operator (nodes s ! i) = ''AND'' \<longrightarrow> Children (nodes s ! i) \<noteq> [])"
  show "\<forall>nd \<in> set (nodes s).
       (\<forall>p \<in> set (Parents nd). p < length (nodes s)) \<and>
       (\<forall>c \<in> set (Children nd). c < length (nodes s)) \<and>
       (Operator nd = ''AND'' \<longrightarrow> Children nd \<noteq> [])"
  proof
    fix nd assume "nd \<in> set (nodes s)"
    then obtain i where "i < length (nodes s)" "nodes s ! i = nd" by (auto simp: in_set_conv_nth)
    with a show "(\<forall>p \<in> set (Parents nd). p < length (nodes s)) \<and>
       (\<forall>c \<in> set (Children nd). c < length (nodes s)) \<and>
       (Operator nd = ''AND'' \<longrightarrow> Children nd \<noteq> [])" by blast
  qed
qed

lemma wellFormed_structureKept:
  assumes "wellFormed s" "structureKept s s'"
  shows "wellFormed s'"
proof -
  from assms(2) have l: "length (nodes s') = length (nodes s)"
    by (simp add: structureKept_def)
  have sh: "Parents (nodes s' ! i) = Parents (nodes s ! i) \<and>
            Children (nodes s' ! i) = Children (nodes s ! i) \<and>
            Operator (nodes s' ! i) = Operator (nodes s ! i)" if "i < length (nodes s)" for i
    using assms(2) that by (simp add: structureKept_def sameShape_def)
  show ?thesis
    unfolding wellFormed_nth
  proof (intro allI impI)
    fix i
    assume "i < length (nodes s')"
    with l have i: "i < length (nodes s)" by simp
    note w = assms(1)[unfolded wellFormed_nth, rule_format, OF i]
    from w sh[OF i] l
    show "(\<forall>p \<in> set (Parents (nodes s' ! i)). p < length (nodes s')) \<and>
        (\<forall>c \<in> set (Children (nodes s' ! i)). c < length (nodes s')) \<and>
        (Operator (nodes s' ! i) = ''AND'' \<longrightarrow> Children (nodes s' ! i) \<noteq> [])"
      by simp
  qed
qed

lemma childrenLoop_result:
  assumes "\<forall>c \<in> set cs. c < length (nodes s)"
  shows "childrenLoop s e cs =
     Inr (if \<forall>c \<in> set cs. eventID (nodes s ! c) = e \<and> truth (nodes s ! c) = truthTrue
          then truthTrue else truthUnknown)"
  using assms by (induction cs) auto

lemma deref_other:
  "c \<noteq> Ptr n \<Longrightarrow> deref (updNode s n f) c = deref s c"
  by (cases c) auto

lemma evalOperator_AND:
  assumes op: "Operator (nodes s ! n) = ''AND''" and c: "deref s c = Some ch"
    and ch: "\<forall>k \<in> set (Children (nodes s ! n)). k < length (nodes s)"
    and ne: "Children (nodes s ! n) \<noteq> []"
  shows "evalOperator s c n =
     (if truth ch = truthFalse then Inr (truthFalse, s)
      else if \<forall>k \<in> set (Children (nodes s ! n)).
                eventID (nodes s ! k) = eventID (nodes s ! n) \<and> truth (nodes s ! k) = truthTrue
           then Inr (truthTrue,
                  if Pattern (nodes s ! n) = None
                  then updNode s n (\<lambda>nd. nd\<lparr>Pattern := Pattern (nodes s ! hd (Children (nodes s ! n)))\<rparr>)
                  else s)
           else Inr (truthUnknown, s))"
proof -
  from ne obtain k ks where k: "Children (nodes s ! n) = k # ks"
    by (cases "Children (nodes s ! n)") auto
  with ch have kl: "k < length (nodes s)" by simp
  have hk: "hd (Children (nodes s ! n)) = k" by (simp add: k)
  define B where "B \<longleftrightarrow> (\<forall>k \<in> set (Children (nodes s ! n)).
                eventID (nodes s ! k) = eventID (nodes s ! n) \<and> truth (nodes s ! k) = truthTrue)"
  have cl: "childrenLoop s (eventID (nodes s ! n)) (Children (nodes s ! n))
              = Inr (if B then truthTrue else truthUnknown)"
    unfolding B_def by (rule childrenLoop_result[OF ch])
  have cs: "(case Children (nodes s ! n) of
                        [] \<Rightarrow> Inl IndexOutOfRange
                      | c # cs \<Rightarrow>
                          if c < length (nodes s)
                          then Inr (truthTrue,
                                 updNode s n (\<lambda>nd. nd\<lparr>Pattern := Pattern (nodes s ! c)\<rparr>))
                          else Inl NilDereference)
            = Inr (truthTrue, updNode s n (\<lambda>nd. nd\<lparr>Pattern := Pattern (nodes s ! k)\<rparr>))"
    by (simp add: k kl)
  have "evalOperator s c n =
     (if truth ch = truthFalse then Inr (truthFalse, s)
      else if B
           then Inr (truthTrue,
                  if Pattern (nodes s ! n) = None
                  then updNode s n (\<lambda>nd. nd\<lparr>Pattern := Pattern (nodes s ! hd (Children (nodes s ! n)))\<rparr>)
                  else s)
           else Inr (truthUnknown, s))"
    unfolding evalOperator_def Let_def c op cl hk
    using cs by (cases B) simp_all
  then show ?thesis unfolding B_def .
qed

lemma evalOperator_no_panic:
  assumes wf: "wellFormed s" and n: "n < length (nodes s)" and c: "deref s c = Some ch"
  shows "\<exists>r. evalOperator s c n = Inr r"
proof (cases "Operator (nodes s ! n) = ''AND''")
  case True
  note w = wf[unfolded wellFormed_nth, rule_format, OF n]
  from w True have "\<forall>k \<in> set (Children (nodes s ! n)). k < length (nodes s)"
    "Children (nodes s ! n) \<noteq> []" by simp_all
  from evalOperator_AND[OF True c this] show ?thesis by simp
next
  case False
  with c show ?thesis by (simp add: evalOperator_def Let_def)
qed

lemma wellFormed_updNode:
  "wellFormed s \<Longrightarrow> sameShape (nodes s ! n) (f (nodes s ! n)) \<Longrightarrow> wellFormed (updNode s n f)"
  by (rule wellFormed_structureKept[OF _ structureKept_updNode])

lemma touch_no_panic:
  assumes wf: "wellFormed s" and n: "n < length (nodes s)" and c: "deref s c = Some ch"
  shows "\<exists>r. touch s c n ev = Inr r"
proof -
  let ?s1 = "updNode s n (\<lambda>nd. resetNode nd ev)"
  have wf1: "wellFormed ?s1" using wf by (rule wellFormed_updNode) simp
  from c obtain ch1 where "deref ?s1 c = Some ch1"
    using deref_updNode_Some[of s c ch n] by auto
  from evalOperator_no_panic[OF wf1 _ this, of n] n obtain t s2 where
    "evalOperator ?s1 c n = Inr (t, s2)" by auto
  with n c show ?thesis
    by (auto simp: touch_def Let_def split: prod.splits)
qed

lemma wellFormed_Parents:
  assumes "wellFormed s" "n < length (nodes s)"
  shows "\<forall>p \<in> set (Parents (nodes s ! n)). p < length (nodes s)"
  using assms(1)[unfolded wellFormed_nth, rule_format, OF assms(2)] by blast

lemma setTruth_no_panic:
  "wellFormed s \<longrightarrow> n < length (nodes s) \<longrightarrow> deref s c \<noteq> None \<longrightarrow>
     (\<exists>r. setTruth s c n ev = Inr r)"
  "wellFormed s0 \<longrightarrow> n0 < length (nodes s0) \<longrightarrow> (\<forall>p \<in> set ps. p < length (nodes s0)) \<longrightarrow>
     (\<exists>r. parentsLoop s0 n0 ps ev0 = Inr r)"
proof (induction s c n ev and s0 n0 ps ev0 rule: setTruth_induct)
  case (1 s c n ev)
  show ?case
  proof (intro impI)
    assume wf: "wellFormed s" and n: "n < length (nodes s)" and c: "deref s c \<noteq> None"
    from c obtain ch where "deref s c = Some ch" by auto
    from touch_no_panic[OF wf n this, of ev] obtain b inds nots s4 where
      t: "touch s c n ev = Inr (b, inds, nots, s4)" by auto
    show "\<exists>r. setTruth s c n ev = Inr r"
    proof (cases b)
      case True
      from touch_structure[OF t] have sk: "structureKept s s4" .
      with wf have wf4: "wellFormed s4" by (rule wellFormed_structureKept)
      from sk n have n4: "n < length (nodes s4)" by (simp add: structureKept_def)
      note ps = wellFormed_Parents[OF wf4 n4]
      from t True have "touch s c n ev = Inr (True, inds, nots, s4)" by simp
      from "1.IH"[OF this] wf4 n4 ps
      obtain r where "parentsLoop s4 n (Parents (nodes s4 ! n)) ev = Inr r" by blast
      with t True show ?thesis by (cases r) (simp add: setTruth_touch)
    next
      case False
      with t show ?thesis by (simp add: setTruth_touch)
    qed
  qed
next
  case (2 s n ev)
  show ?case by simp
next
  case (3 s n p ps ev)
  show ?case
  proof (intro impI)
    assume wf: "wellFormed s" and n: "n < length (nodes s)"
      and ps: "\<forall>q \<in> set (p # ps). q < length (nodes s)"
    from ps have pl: "p < length (nodes s)" by simp
    then have "deref s (Ptr p) \<noteq> None" by simp
    from ps have "deref s (Ptr n) \<noteq> None" using n by simp
    with "3.IH"(1) wf pl obtain r1 where "setTruth s (Ptr n) p ev = Inr r1" by blast
    then obtain i d s1 where
      a: "setTruth s (Ptr n) p ev = Inr (i, d, s1)" by (cases r1) auto
    from setTruth_structure[OF a] have sk: "structureKept s s1" .
    with wf have wf1: "wellFormed s1" by (rule wellFormed_structureKept)
    from sk have l: "length (nodes s1) = length (nodes s)" by (simp add: structureKept_def)
    from ps l have "\<forall>q \<in> set ps. q < length (nodes s1)" by simp
    with "3.IH"(2)[OF a] wf1 l n obtain r where "parentsLoop s1 n ps ev = Inr r" by auto
    with a show "\<exists>r. parentsLoop s n (p # ps) ev = Inr r" by (cases r) simp
  qed
qed

text \<open>
  The result of a call whose child has a known truth, on a node that is not resolved for
  the event, from the value of \<open>setNodeTo\<close>.
\<close>

lemma setTruth_evalOperator:
  assumes wf: "wellFormed s" and n: "n < length (nodes s)"
    and c: "deref s c = Some child" "truth child \<noteq> truthUnknown"
    and nr: "\<not> resolved ev (nodes s ! n)"
    and e: "evalOperator (updNode s n (\<lambda>nd. resetNode nd ev)) c n = Inr (t, s2)"
  shows "\<exists>inds nots s'. setTruth s c n ev = Inr (inds, nots, s') \<and>
           nodes s' ! n = (nodes s2 ! n)\<lparr>truth := t\<rparr> \<and>
           (t = truthUnknown \<longrightarrow> inds = [] \<and> nots = SiblingNots (nodes s ! n) \<and>
              s' = updNode s n (\<lambda>nd. resetNode nd ev))"
proof -
  let ?s1 = "updNode s n (\<lambda>nd. resetNode nd ev)"
  from n nr have u: "truth (nodes ?s1 ! n) = truthUnknown" by (simp add: truth_resetNode)
  show ?thesis
  proof (cases "t = truthUnknown")
    case True
    with e have s2: "s2 = ?s1" by (auto dest: evalOperator_Unknown)
    from n c u e True s2 have "touch s c n ev = Inr (False, [], SiblingNots (nodes s ! n), ?s1)"
      by (simp add: touch_def Let_def)
    then have "setTruth s c n ev = Inr ([], SiblingNots (nodes s ! n), ?s1)"
      by (simp add: setTruth_touch)
    with True s2 n u show ?thesis by simp
  next
    case False
    obtain inds s4 where em: "emitIndicator (updNode s2 n (\<lambda>nd. nd\<lparr>truth := t\<rparr>)) n = (inds, s4)"
      by (cases "emitIndicator (updNode s2 n (\<lambda>nd. nd\<lparr>truth := t\<rparr>)) n") auto
    with n c u e False have t: "touch s c n ev = Inr (True, inds, SiblingNots (nodes s ! n), s4)"
      by (simp add: touch_def Let_def)
    from touch_structure[OF t] have sk: "structureKept s s4" .
    with wf have wf4: "wellFormed s4" by (rule wellFormed_structureKept)
    from sk n have n4: "n < length (nodes s4)" by (simp add: structureKept_def)
    note ps = wellFormed_Parents[OF wf4 n4]
    with setTruth_no_panic(2)[of s4 n "Parents (nodes s4 ! n)" ev] wf4 n4
    obtain pinds pnots s' where
      pl: "parentsLoop s4 n (Parents (nodes s4 ! n)) ev = Inr (pinds, pnots, s')"
      by (cases "parentsLoop s4 n (Parents (nodes s4 ! n)) ev") auto
    from evalOperator_heap[OF e] n have l2: "length (nodes s2) = length (nodes s)" by auto
    from nodes_emitIndicator[OF em] n l2
    have n4eq: "nodes s4 ! n = (nodes s2 ! n)\<lparr>truth := t\<rparr>" by simp
    from touch_resolves_shape[OF n e em] n False have "resolved ev (nodes s4 ! n)"
      by (auto simp: resolved_def)
    with parentsLoop_resolvedKept[OF pl] n4 have "nodes s' ! n = nodes s4 ! n"
      by (simp add: resolvedKept_def)
    with t pl n4eq False show ?thesis by (simp add: setTruth_touch)
  qed
qed

section \<open>Operator evaluation\<close>

text \<open>
  In the three theorems of this section the node \<open>n\<close> is touched by a call for the event
  \<open>ev\<close> with the child \<open>c\<close>, and is not yet resolved for \<open>ev\<close>. \<open>Fire\<close> is the call
  with the child \<open>trueNode\<close>, \<open>ResolveNot\<close> the call with the child \<open>falseNode\<close>, and the
  loop over the parents calls with a child \<open>Ptr m\<close> that has just been resolved; in each
  case the child is not the node itself. The heap is well formed, so the call returns.
\<close>

lemma eval_reset:
  assumes n: "n < length (nodes s)" and c: "deref s c = Some child" "c \<noteq> Ptr n"
  shows "deref (updNode s n (\<lambda>nd. resetNode nd ev)) c = Some child"
    and "nodes (updNode s n (\<lambda>nd. resetNode nd ev)) ! n = resetNode (nodes s ! n) ev"
  using assms by (simp_all add: deref_other)

text \<open>
  Claim C3. A NOT node touched with a true child is False after the call, and a NOT node
  touched with a false child is True after the call: it does not remain Unknown.
\<close>

theorem not_node_resolution:
  assumes wf: "wellFormed s" and n: "n < length (nodes s)"
    and op: "Operator (nodes s ! n) = ''NOT''"
    and nr: "\<not> resolved ev (nodes s ! n)"
    and c: "deref s c = Some child" "c \<noteq> Ptr n"
  shows "(truth child = truthTrue \<longrightarrow>
            (\<exists>inds nots s'. setTruth s c n ev = Inr (inds, nots, s') \<and>
               truth (nodes s' ! n) = truthFalse \<and> eventID (nodes s' ! n) = ev))
       \<and> (truth child = truthFalse \<longrightarrow>
            (\<exists>inds nots s'. setTruth s c n ev = Inr (inds, nots, s') \<and>
               truth (nodes s' ! n) = truthTrue \<and> eventID (nodes s' ! n) = ev))"
proof -
  let ?s1 = "updNode s n (\<lambda>nd. resetNode nd ev)"
  note r = eval_reset[OF n c, of ev]
  from op n r have e: "evalOperator ?s1 c n
      = Inr (if truth child = truthTrue then truthFalse else truthTrue, ?s1)"
    by (simp add: evalOperator_def Let_def)
  have res: "\<exists>inds nots s'. setTruth s c n ev = Inr (inds, nots, s') \<and>
      truth (nodes s' ! n) = (if truth child = truthTrue then truthFalse else truthTrue) \<and>
      eventID (nodes s' ! n) = ev"
    if k: "truth child \<noteq> truthUnknown"
  proof -
    from setTruth_evalOperator[OF wf n c(1) k nr e] obtain inds nots s' where
      a: "setTruth s c n ev = Inr (inds, nots, s')" and
      b: "nodes s' ! n = (nodes ?s1 ! n)\<lparr>truth := (if truth child = truthTrue then truthFalse else truthTrue)\<rparr>"
      by blast
    from b n show ?thesis unfolding a by simp
  qed
  show ?thesis
  proof (intro conjI impI)
    assume "truth child = truthTrue"
    with res show "\<exists>inds nots s'. setTruth s c n ev = Inr (inds, nots, s') \<and>
               truth (nodes s' ! n) = truthFalse \<and> eventID (nodes s' ! n) = ev" by simp
  next
    assume "truth child = truthFalse"
    with res show "\<exists>inds nots s'. setTruth s c n ev = Inr (inds, nots, s') \<and>
               truth (nodes s' ! n) = truthTrue \<and> eventID (nodes s' ! n) = ev" by simp
  qed
qed

theorem not_node_resolution_witness:
  "wellFormed notHeap \<and> \<not> resolved 1 (nodes notHeap ! 1) \<and>
   (\<exists>inds nots s'. ResolveNot notHeap 1 1 = Inr (inds, nots, s') \<and>
       truth (nodes s' ! 1) = truthTrue \<and> eventID (nodes s' ! 1) = 1)"
proof -
  have h: "wellFormed notHeap" "1 < length (nodes notHeap)"
    "Operator (nodes notHeap ! 1) = ''NOT''" "\<not> resolved 1 (nodes notHeap ! 1)"
    "deref notHeap falseNode = Some (zeroNode\<lparr>truth := truthFalse\<rparr>)" "falseNode \<noteq> Ptr 1"
    "truth (zeroNode\<lparr>truth := truthFalse\<rparr>) = truthFalse"
    by (simp_all add: notHeap_def wellFormed_def leaf_def zeroNode_def resolved_def)
  from not_node_resolution[OF h(1-6)] h show ?thesis
    unfolding ResolveNot_def by blast
qed


text \<open>
  Claim C2. An OR node touched with a true child is True after the call, and its pattern
  is its own when it has one after the reset and the pattern of the child otherwise. An OR
  node touched with a false child is not set to False: the call returns at once, with
  nothing emitted and no parent touched, and the node is Unknown.
\<close>

theorem or_node_resolution:
  assumes wf: "wellFormed s" and n: "n < length (nodes s)"
    and op: "Operator (nodes s ! n) = ''OR''"
    and nr: "\<not> resolved ev (nodes s ! n)"
    and c: "deref s c = Some child" "c \<noteq> Ptr n"
  shows "(truth child = truthTrue \<longrightarrow>
            (\<exists>inds nots s'. setTruth s c n ev = Inr (inds, nots, s') \<and>
               truth (nodes s' ! n) = truthTrue \<and> eventID (nodes s' ! n) = ev \<and>
               Pattern (nodes s' ! n) =
                 (case Pattern (resetNode (nodes s ! n) ev) of
                    None \<Rightarrow> Pattern child | Some p \<Rightarrow> Some p)))
       \<and> (truth child = truthFalse \<longrightarrow>
            setTruth s c n ev
              = Inr ([], SiblingNots (nodes s ! n), updNode s n (\<lambda>nd. resetNode nd ev)) \<and>
            truth (nodes (updNode s n (\<lambda>nd. resetNode nd ev)) ! n) = truthUnknown)"
proof (intro conjI impI)
  let ?s1 = "updNode s n (\<lambda>nd. resetNode nd ev)"
  note r = eval_reset[OF n c, of ev]
  assume k: "truth child = truthTrue"
  let ?s2 = "if Pattern (resetNode (nodes s ! n) ev) = None
             then updNode ?s1 n (\<lambda>nd. nd\<lparr>Pattern := Pattern child\<rparr>) else ?s1"
  from op n r k have e: "evalOperator ?s1 c n = Inr (truthTrue, ?s2)"
    by (simp add: evalOperator_def Let_def)
  from k have "truth child \<noteq> truthUnknown" by simp
  from setTruth_evalOperator[OF wf n c(1) this nr e] obtain inds nots s' where
    a: "setTruth s c n ev = Inr (inds, nots, s')" and
    b: "nodes s' ! n = (nodes ?s2 ! n)\<lparr>truth := truthTrue\<rparr>"
    by blast
  from b n have "truth (nodes s' ! n) = truthTrue \<and> eventID (nodes s' ! n) = ev \<and>
               Pattern (nodes s' ! n) =
                 (case Pattern (resetNode (nodes s ! n) ev) of
                    None \<Rightarrow> Pattern child | Some p \<Rightarrow> Some p)"
    by (auto split: option.splits)
  with a show "\<exists>inds nots s'. setTruth s c n ev = Inr (inds, nots, s') \<and>
               truth (nodes s' ! n) = truthTrue \<and> eventID (nodes s' ! n) = ev \<and>
               Pattern (nodes s' ! n) =
                 (case Pattern (resetNode (nodes s ! n) ev) of
                    None \<Rightarrow> Pattern child | Some p \<Rightarrow> Some p)"
    by blast
next
  let ?s1 = "updNode s n (\<lambda>nd. resetNode nd ev)"
  note r = eval_reset[OF n c, of ev]
  assume k: "truth child = truthFalse"
  from op n r k have e: "evalOperator ?s1 c n = Inr (truthUnknown, ?s1)"
    by (simp add: evalOperator_def Let_def)
  from k have "truth child \<noteq> truthUnknown" by simp
  from setTruth_evalOperator[OF wf n c(1) this nr e]
  show "setTruth s c n ev = Inr ([], SiblingNots (nodes s ! n), ?s1)" by auto
next
  assume "truth child = truthFalse"
  from n nr show "truth (nodes (updNode s n (\<lambda>nd. resetNode nd ev)) ! n) = truthUnknown"
    by (simp add: truth_resetNode)
qed

theorem or_node_resolution_witness:
  "wellFormed (updNode orHeap 0 (fired 1)) \<and>
   \<not> resolved 1 (nodes (updNode orHeap 0 (fired 1)) ! 1) \<and>
   (\<exists>inds nots s'. setTruth (updNode orHeap 0 (fired 1)) (Ptr 0) 1 1 = Inr (inds, nots, s') \<and>
       truth (nodes s' ! 1) = truthTrue \<and>
       Pattern (nodes s' ! 1) = Pattern (leaf ''src.ipv4'' ''10.0.0.1'' [1])) \<and>
   ResolveNot orHeap 1 1
     = Inr ([], SiblingNots (nodes orHeap ! 1), updNode orHeap 1 (\<lambda>nd. resetNode nd 1))"
proof -
  let ?s = "updNode orHeap 0 (fired 1)"
  have h: "wellFormed ?s" "1 < length (nodes ?s)"
    "Operator (nodes ?s ! 1) = ''OR''" "\<not> resolved 1 (nodes ?s ! 1)"
    "deref ?s (Ptr 0) = Some (fired 1 (leaf ''src.ipv4'' ''10.0.0.1'' [1]))" "Ptr 0 \<noteq> Ptr 1"
    by (simp_all add: orHeap_def wellFormed_def leaf_def zeroNode_def resolved_def fired_def)
  have v: "truth (fired 1 (leaf ''src.ipv4'' ''10.0.0.1'' [1])) = truthTrue"
    "Pattern (resetNode (nodes ?s ! 1) 1) = None"
    "Pattern (fired 1 (leaf ''src.ipv4'' ''10.0.0.1'' [1])) = Pattern (leaf ''src.ipv4'' ''10.0.0.1'' [1])"
    by (simp_all add: orHeap_def leaf_def zeroNode_def fired_def resetNode_def)
  have g: "wellFormed orHeap" "1 < length (nodes orHeap)"
    "Operator (nodes orHeap ! 1) = ''OR''" "\<not> resolved 1 (nodes orHeap ! 1)"
    "deref orHeap falseNode = Some (zeroNode\<lparr>truth := truthFalse\<rparr>)" "falseNode \<noteq> Ptr 1"
    "truth (zeroNode\<lparr>truth := truthFalse\<rparr>) = truthFalse"
    by (simp_all add: orHeap_def wellFormed_def leaf_def zeroNode_def resolved_def)
  from or_node_resolution[OF h(1-6), THEN conjunct1] v
  have 1: "\<exists>inds nots s'. setTruth ?s (Ptr 0) 1 1 = Inr (inds, nots, s') \<and>
       truth (nodes s' ! 1) = truthTrue \<and>
       Pattern (nodes s' ! 1) = Pattern (leaf ''src.ipv4'' ''10.0.0.1'' [1])"
    by auto
  from or_node_resolution[OF g(1-6), THEN conjunct2] g(7)
  have 2: "ResolveNot orHeap 1 1
     = Inr ([], SiblingNots (nodes orHeap ! 1), updNode orHeap 1 (\<lambda>nd. resetNode nd 1))"
    unfolding ResolveNot_def by blast
  from h(1,4) 1 2 show ?thesis by blast
qed

text \<open>
  Claim C1. An AND node touched with a false child is False after the call, whatever the
  state of its children. An AND node touched with a true child is True after the call
  exactly when every child is true for the event of the call, and then its pattern is its
  own when it has one after the reset and the pattern of its first child otherwise; when
  some child is not true for the event the node stays Unknown, nothing is emitted and no
  parent is touched.
\<close>

theorem and_node_resolution:
  assumes wf: "wellFormed s" and n: "n < length (nodes s)"
    and op: "Operator (nodes s ! n) = ''AND''"
    and nr: "\<not> resolved ev (nodes s ! n)"
    and c: "deref s c = Some child" "c \<noteq> Ptr n"
  shows "(truth child = truthFalse \<longrightarrow>
            (\<exists>inds nots s'. setTruth s c n ev = Inr (inds, nots, s') \<and>
               truth (nodes s' ! n) = truthFalse \<and> eventID (nodes s' ! n) = ev))
       \<and> (truth child = truthTrue \<longrightarrow>
            (\<exists>inds nots s'. setTruth s c n ev = Inr (inds, nots, s') \<and>
               eventID (nodes s' ! n) = ev \<and>
               (if \<forall>k \<in> set (Children (nodes s ! n)).
                     truth (nodes s ! k) = truthTrue \<and> eventID (nodes s ! k) = ev
                then truth (nodes s' ! n) = truthTrue \<and>
                     Pattern (nodes s' ! n) =
                       (case Pattern (resetNode (nodes s ! n) ev) of
                          None \<Rightarrow> Pattern (nodes s ! hd (Children (nodes s ! n)))
                        | Some p \<Rightarrow> Some p)
                else truth (nodes s' ! n) = truthUnknown \<and> inds = [] \<and>
                     s' = updNode s n (\<lambda>nd. resetNode nd ev))))"
proof -
  let ?s1 = "updNode s n (\<lambda>nd. resetNode nd ev)"
  let ?cs = "Children (nodes s ! n)"
  note r = eval_reset[OF n c, of ev]
  note w = wf[unfolded wellFormed_nth, rule_format, OF n]
  from w op have cs: "\<forall>k \<in> set ?cs. k < length (nodes s)" and ne: "?cs \<noteq> []" by simp_all
  define B where "B \<longleftrightarrow> (\<forall>k \<in> set ?cs. truth (nodes s ! k) = truthTrue \<and> eventID (nodes s ! k) = ev)"
  have B1: "(\<forall>k \<in> set (Children (nodes ?s1 ! n)).
                eventID (nodes ?s1 ! k) = eventID (nodes ?s1 ! n) \<and> truth (nodes ?s1 ! k) = truthTrue)
            \<longleftrightarrow> B"
  proof -
    have "eventID (nodes ?s1 ! k) = ev \<and> truth (nodes ?s1 ! k) = truthTrue
          \<longleftrightarrow> truth (nodes s ! k) = truthTrue \<and> eventID (nodes s ! k) = ev"
      if "k \<in> set ?cs" for k
    proof (cases "k = n")
      case True
      from nr have "truth (resetNode (nodes s ! n) ev) = truthUnknown"
        by (simp add: truth_resetNode)
      with True n nr show ?thesis by (auto simp: resolved_def)
    next
      case False
      then show ?thesis by auto
    qed
    with n show ?thesis unfolding B_def by simp
  qed
  have hd1: "B \<Longrightarrow> nodes ?s1 ! hd ?cs = nodes s ! hd ?cs"
  proof -
    assume B
    with ne have "truth (nodes s ! hd ?cs) = truthTrue \<and> eventID (nodes s ! hd ?cs) = ev"
      unfolding B_def by simp
    with nr have "hd ?cs \<noteq> n" by (auto simp: resolved_def)
    then show ?thesis by simp
  qed
  from op n have op1: "Operator (nodes ?s1 ! n) = ''AND''" by simp
  from cs n have cs1: "\<forall>k \<in> set (Children (nodes ?s1 ! n)). k < length (nodes ?s1)" by simp
  from ne n have ne1: "Children (nodes ?s1 ! n) \<noteq> []" by simp
  note e0 = evalOperator_AND[OF op1 r(1) cs1 ne1, unfolded B1]
  let ?s2 = "if Pattern (resetNode (nodes s ! n) ev) = None
             then updNode ?s1 n (\<lambda>nd. nd\<lparr>Pattern := Pattern (nodes ?s1 ! hd ?cs)\<rparr>) else ?s1"
  from e0 n have e: "evalOperator ?s1 c n =
     (if truth child = truthFalse then Inr (truthFalse, ?s1)
      else if B then Inr (truthTrue, ?s2) else Inr (truthUnknown, ?s1))"
    by simp
  show ?thesis
  proof (intro conjI impI)
    assume k: "truth child = truthFalse"
    with e have e': "evalOperator ?s1 c n = Inr (truthFalse, ?s1)" by simp
    from k have "truth child \<noteq> truthUnknown" by simp
    from setTruth_evalOperator[OF wf n c(1) this nr e'] obtain inds nots s' where
      a: "setTruth s c n ev = Inr (inds, nots, s')" and
      b: "nodes s' ! n = (nodes ?s1 ! n)\<lparr>truth := truthFalse\<rparr>" by blast
    from b n have "truth (nodes s' ! n) = truthFalse \<and> eventID (nodes s' ! n) = ev" by simp
    with a show "\<exists>inds nots s'. setTruth s c n ev = Inr (inds, nots, s') \<and>
               truth (nodes s' ! n) = truthFalse \<and> eventID (nodes s' ! n) = ev" by blast
  next
    assume k: "truth child = truthTrue"
    then have ku: "truth child \<noteq> truthUnknown" by simp
    show "\<exists>inds nots s'. setTruth s c n ev = Inr (inds, nots, s') \<and>
               eventID (nodes s' ! n) = ev \<and>
               (if \<forall>k \<in> set (Children (nodes s ! n)).
                     truth (nodes s ! k) = truthTrue \<and> eventID (nodes s ! k) = ev
                then truth (nodes s' ! n) = truthTrue \<and>
                     Pattern (nodes s' ! n) =
                       (case Pattern (resetNode (nodes s ! n) ev) of
                          None \<Rightarrow> Pattern (nodes s ! hd (Children (nodes s ! n)))
                        | Some p \<Rightarrow> Some p)
                else truth (nodes s' ! n) = truthUnknown \<and> inds = [] \<and>
                     s' = updNode s n (\<lambda>nd. resetNode nd ev))"
    proof (cases B)
      case True
      with e k have e': "evalOperator ?s1 c n = Inr (truthTrue, ?s2)" by simp
      from setTruth_evalOperator[OF wf n c(1) ku nr e'] obtain inds nots s' where
        a: "setTruth s c n ev = Inr (inds, nots, s')" and
        b: "nodes s' ! n = (nodes ?s2 ! n)\<lparr>truth := truthTrue\<rparr>" by blast
      from b n hd1[OF True]
      have "truth (nodes s' ! n) = truthTrue \<and> eventID (nodes s' ! n) = ev \<and>
            Pattern (nodes s' ! n) =
                       (case Pattern (resetNode (nodes s ! n) ev) of
                          None \<Rightarrow> Pattern (nodes s ! hd ?cs)
                        | Some p \<Rightarrow> Some p)"
        by (auto split: option.splits)
      with a True show ?thesis unfolding B_def by auto
    next
      case False
      with e k have e': "evalOperator ?s1 c n = Inr (truthUnknown, ?s1)" by simp
      from setTruth_evalOperator[OF wf n c(1) ku nr e'] obtain inds nots s' where
        a: "setTruth s c n ev = Inr (inds, nots, s')" and
        b: "nodes s' ! n = (nodes ?s1 ! n)\<lparr>truth := truthUnknown\<rparr>" and
        d: "inds = []" "s' = ?s1" by blast
      from b n have "truth (nodes s' ! n) = truthUnknown \<and> eventID (nodes s' ! n) = ev" by simp
      with a d False show ?thesis unfolding B_def by auto
    qed
  qed
qed


theorem and_node_resolution_witness:
  "wellFormed (updNode (updNode andHeap 0 (fired 1)) 1 (fired 1)) \<and>
   \<not> resolved 1 (nodes (updNode (updNode andHeap 0 (fired 1)) 1 (fired 1)) ! 2) \<and>
   (\<exists>inds nots s'.
       setTruth (updNode (updNode andHeap 0 (fired 1)) 1 (fired 1)) (Ptr 1) 2 1
         = Inr (inds, nots, s') \<and>
       truth (nodes s' ! 2) = truthTrue \<and>
       Pattern (nodes s' ! 2) = Pattern (leaf ''src.ipv4'' ''10.0.0.1'' [2])) \<and>
   (\<exists>inds nots s'. setTruth (updNode andHeap 1 (fired 1)) (Ptr 1) 2 1 = Inr (inds, nots, s') \<and>
       truth (nodes s' ! 2) = truthUnknown) \<and>
   (\<exists>inds nots s'. ResolveNot andHeap 2 1 = Inr (inds, nots, s') \<and>
       truth (nodes s' ! 2) = truthFalse)"
proof -
  let ?s = "updNode (updNode andHeap 0 (fired 1)) 1 (fired 1)"
  let ?u = "updNode andHeap 1 (fired 1)"
  let ?c = "fired 1 (leaf ''dest.port'' ''443'' [2])"
  have h: "wellFormed ?s" "2 < length (nodes ?s)"
    "Operator (nodes ?s ! 2) = ''AND''" "\<not> resolved 1 (nodes ?s ! 2)"
    "deref ?s (Ptr 1) = Some ?c" "Ptr 1 \<noteq> Ptr 2"
    by (simp_all add: andHeap_def wellFormed_def leaf_def zeroNode_def resolved_def fired_def)
  have v: "truth ?c = truthTrue"
    "\<forall>k \<in> set (Children (nodes ?s ! 2)). truth (nodes ?s ! k) = truthTrue \<and> eventID (nodes ?s ! k) = 1"
    "Pattern (resetNode (nodes ?s ! 2) 1) = None"
    "Pattern (nodes ?s ! hd (Children (nodes ?s ! 2))) = Pattern (leaf ''src.ipv4'' ''10.0.0.1'' [2])"
    by (simp_all add: andHeap_def leaf_def zeroNode_def fired_def resetNode_def)
  have hu: "wellFormed ?u" "2 < length (nodes ?u)"
    "Operator (nodes ?u ! 2) = ''AND''" "\<not> resolved 1 (nodes ?u ! 2)"
    "deref ?u (Ptr 1) = Some ?c" "Ptr 1 \<noteq> Ptr 2"
    by (simp_all add: andHeap_def wellFormed_def leaf_def zeroNode_def resolved_def fired_def)
  have vu: "\<not> (\<forall>k \<in> set (Children (nodes ?u ! 2)).
                truth (nodes ?u ! k) = truthTrue \<and> eventID (nodes ?u ! k) = 1)"
    by (simp add: andHeap_def leaf_def zeroNode_def fired_def)
  have g: "wellFormed andHeap" "2 < length (nodes andHeap)"
    "Operator (nodes andHeap ! 2) = ''AND''" "\<not> resolved 1 (nodes andHeap ! 2)"
    "deref andHeap falseNode = Some (zeroNode\<lparr>truth := truthFalse\<rparr>)" "falseNode \<noteq> Ptr 2"
    "truth (zeroNode\<lparr>truth := truthFalse\<rparr>) = truthFalse"
    by (simp_all add: andHeap_def wellFormed_def leaf_def zeroNode_def resolved_def)
  from and_node_resolution[OF h(1-6), THEN conjunct2, rule_format, OF v(1),
      unfolded if_P[OF v(2)] v(3) v(4) option.case]
  have 1: "\<exists>inds nots s'. setTruth ?s (Ptr 1) 2 1 = Inr (inds, nots, s') \<and>
       truth (nodes s' ! 2) = truthTrue \<and>
       Pattern (nodes s' ! 2) = Pattern (leaf ''src.ipv4'' ''10.0.0.1'' [2])"
    by blast
  from and_node_resolution[OF hu(1-6), THEN conjunct2, rule_format, OF v(1),
      unfolded if_not_P[OF vu]]
  have 2: "\<exists>inds nots s'. setTruth ?u (Ptr 1) 2 1 = Inr (inds, nots, s') \<and>
       truth (nodes s' ! 2) = truthUnknown"
    by blast
  from and_node_resolution[OF g(1-6), THEN conjunct1, rule_format, OF g(7)]
  have 3: "\<exists>inds nots s'. ResolveNot andHeap 2 1 = Inr (inds, nots, s') \<and>
       truth (nodes s' ! 2) = truthFalse"
    unfolding ResolveNot_def by blast
  from h(1,4) 1 2 3 show ?thesis by blast
qed

section \<open>Emission\<close>

text \<open>
  A relation between the heap before, the two lists returned and the heap after, that
  every step establishes and that composes, holds of the whole call.
\<close>

lemma setTruth_rel_out:
  assumes nil: "\<And>ev s. R ev s [] [] s"
    and comp: "\<And>ev s i1 d1 s1 i2 d2 s2.
        R ev s i1 d1 s1 \<Longrightarrow> R ev s1 i2 d2 s2 \<Longrightarrow> R ev s (i1 @ i2) (d1 @ d2) s2"
    and tch: "\<And>ev s c n b inds nots s'.
        touch s c n ev = Inr (b, inds, nots, s') \<Longrightarrow> R ev s inds nots s'"
  shows "setTruth s c n ev = Inr (i, d, s') \<Longrightarrow> R ev s i d s'"
    and "parentsLoop s0 n0 ps ev0 = Inr (i0, d0, s0') \<Longrightarrow> R ev0 s0 i0 d0 s0'"
proof (induction s c n ev and s0 n0 ps ev0 arbitrary: i d s' and i0 d0 s0' rule: setTruth_induct)
  case (1 s c n ev)
  from "1.prems" obtain b inds nots s4 where
    t: "touch s c n ev = Inr (b, inds, nots, s4)"
    by (auto simp: setTruth_touch split: sum.splits)
  show ?case
  proof (cases b)
    case True
    with "1.prems" t obtain pinds pnots where
      pl: "parentsLoop s4 n (Parents (nodes s4 ! n)) ev = Inr (pinds, pnots, s')"
      and eq: "i = inds @ pinds" "d = nots @ pnots"
      by (auto simp: setTruth_touch split: sum.splits)
    from t True have "touch s c n ev = Inr (True, inds, nots, s4)" by simp
    from "1.IH"[OF this pl] have "R ev s4 pinds pnots s'" .
    with tch[OF t] show ?thesis unfolding eq by (rule comp)
  next
    case False
    with "1.prems" t have "s' = s4" "i = inds" "d = nots" by (simp_all add: setTruth_touch)
    with tch[OF t] show ?thesis by simp
  qed
next
  case (2 s n ev)
  then show ?case by (simp add: nil)
next
  case (3 s n p ps ev)
  from "3.prems" obtain i1 d1 s1 i2 d2 where
    a: "setTruth s (Ptr n) p ev = Inr (i1, d1, s1)" and
    b: "parentsLoop s1 n ps ev = Inr (i2, d2, s0')" and
    eq: "i0 = i1 @ i2" "d0 = d1 @ d2"
    by (auto split: sum.splits)
  from "3.IH"(1)[OF a] "3.IH"(2)[OF a b] show ?case unfolding eq by (rule comp)
qed

lemma emission_nil: "emission ev s [] [] s"
  by (auto simp: emission_def emitters_def structureKept_refl resolvedKept_refl)

lemma emitters_append:
  assumes e1: "emitters ev s i1 s1 ms1" and e2: "emitters ev s1 i2 s2 ms2"
    and k1: "resolvedKept ev s s1" and k2: "resolvedKept ev s1 s2"
    and st: "structureKept s s1"
  shows "emitters ev s (i1 @ i2) s2 (ms1 @ ms2)"
proof -
  from st have l: "length (nodes s1) = length (nodes s)"
    and ind: "\<And>m. m < length (nodes s) \<Longrightarrow> Indicator (nodes s1 ! m) = Indicator (nodes s ! m)"
    by (simp_all add: structureKept_def sameShape_def)
  have r1: "resolved ev (nodes s1 ! m)" if "m \<in> set ms1" for m
    using e1 that by (auto simp: emitters_def resolved_def)
  have u2: "\<not> resolved ev (nodes s1 ! m)" "m < length (nodes s)" if "m \<in> set ms2" for m
    using e2 that l by (auto simp: emitters_def)
  have disj: "set ms1 \<inter> set ms2 = {}" using r1 u2 by blast
  have us: "\<not> resolved ev (nodes s ! m)" if "m \<in> set ms2" for m
  proof
    assume "resolved ev (nodes s ! m)"
    with k1 u2(2)[OF that] have "nodes s1 ! m = nodes s ! m" by (simp add: resolvedKept_def)
    with \<open>resolved ev (nodes s ! m)\<close> u2(1)[OF that] show False by simp
  qed
  have keep: "truth (nodes s2 ! m) = truthTrue \<and> eventID (nodes s2 ! m) = ev"
    if "m \<in> set ms1" for m
  proof -
    from e1 that have a: "m < length (nodes s1)" "truth (nodes s1 ! m) = truthTrue"
      "eventID (nodes s1 ! m) = ev" using l by (auto simp: emitters_def)
    with k2 r1[OF that] have "nodes s2 ! m = nodes s1 ! m" by (simp add: resolvedKept_def)
    with a show ?thesis by simp
  qed
  have m2: "map (\<lambda>m. Indicator (nodes s ! m)) ms2 = map (\<lambda>m. Indicator (nodes s1 ! m)) ms2"
    using u2(2) ind by (auto intro!: map_cong)
  from e1 e2 disj m2 have "distinct (ms1 @ ms2)"
    "map (\<lambda>m. Indicator (nodes s ! m)) (ms1 @ ms2) = map Some (i1 @ i2)"
    by (simp_all add: emitters_def)
  moreover have "\<forall>m \<in> set (ms1 @ ms2). m < length (nodes s) \<and> \<not> resolved ev (nodes s ! m) \<and>
         truth (nodes s2 ! m) = truthTrue \<and> eventID (nodes s2 ! m) = ev"
    using e1 e2 us u2(2) keep by (auto simp: emitters_def)
  ultimately show ?thesis unfolding emitters_def by blast
qed

lemma emission_comp:
  assumes "emission ev s i1 d1 s1" "emission ev s1 i2 d2 s2"
  shows "emission ev s (i1 @ i2) (d1 @ d2) s2"
proof -
  from assms obtain ms1 ms2 where
    e: "emitters ev s i1 s1 ms1" "emitters ev s1 i2 s2 ms2" by (auto simp: emission_def)
  from assms have k: "resolvedKept ev s s1" "resolvedKept ev s1 s2"
    and st: "structureKept s s1" "structureKept s1 s2"
    and o: "\<forall>a. a \<notin> set i1 \<longrightarrow> indicators s1 a = indicators s a"
       "\<forall>a. a \<notin> set i2 \<longrightarrow> indicators s2 a = indicators s1 a"
    by (simp_all add: emission_def)
  from emitters_append[OF e k st(1)] have "\<exists>ms. emitters ev s (i1 @ i2) s2 ms" by blast
  moreover from o have "\<forall>a. a \<notin> set (i1 @ i2) \<longrightarrow> indicators s2 a = indicators s a" by simp
  ultimately show ?thesis
    using k st unfolding emission_def
    by (blast intro: structureKept_trans resolvedKept_trans)
qed

lemma touch_emission:
  assumes t: "touch s c n ev = Inr (b, inds, nots, s')"
  shows "emission ev s inds nots s'"
proof -
  note st = touch_structure[OF t] and k = touch_resolvedKept[OF t]
  have "(\<forall>a. a \<notin> set inds \<longrightarrow> indicators s' a = indicators s a) \<and>
        (\<exists>ms. emitters ev s inds s' ms)"
    using t
  proof (cases rule: touch_Inr)
    case (unknown_child child0)
    then show ?thesis by (auto simp: emitters_def)
  next
    case (already child0)
    then show ?thesis by (auto simp: emitters_def)
  next
    case (stays child0)
    then show ?thesis by (auto simp: emitters_def)
  next
    case (resolves child0 t s2)
    let ?s3 = "updNode s2 n (\<lambda>nd. nd\<lparr>truth := t\<rparr>)"
    from evalOperator_heap[OF resolves(5)] have i2: "indicators s2 = indicators s" by simp
    from emitIndicator_other[OF resolves(7)] i2
    have o: "\<forall>a. a \<notin> set inds \<longrightarrow> indicators s' a = indicators s a" by simp
    from touch_resolves_shape[OF resolves(1,5,7)] obtain p where
      p: "nodes s' = (nodes s)[n := (resetNode (nodes s ! n) ev)\<lparr>Pattern := p, truth := t\<rparr>]"
      by blast
    from nodes_emitIndicator[OF resolves(7)] have n3: "nodes ?s3 = nodes s'" by simp
    from p resolves(1) have n3n: "truth (nodes ?s3 ! n) = t"
      "Indicator (nodes ?s3 ! n) = Indicator (nodes s ! n)"
      unfolding n3 by simp_all
    have inds: "inds = (if t = truthTrue
           then (case Indicator (nodes s ! n) of None \<Rightarrow> [] | Some a \<Rightarrow> [a]) else [])"
      using emitIndicator_inds[OF resolves(7)] unfolding n3n .
    have "\<exists>ms. emitters ev s inds s' ms"
    proof (cases "inds = []")
      case True
      then show ?thesis by (auto simp: emitters_def)
    next
      case False
      with inds obtain a where "t = truthTrue" "Indicator (nodes s ! n) = Some a" "inds = [a]"
        by (auto split: if_splits option.splits)
      with p resolves(1,4) have "emitters ev s inds s' [n]"
        by (simp add: emitters_def)
      then show ?thesis by blast
    qed
    with o show ?thesis by blast
  qed
  with st k show ?thesis by (simp add: emission_def)
qed


lemma parentsLoop_emission:
  "parentsLoop s n ps ev = Inr (i, d, s') \<Longrightarrow> emission ev s i d s'"
  by (rule setTruth_rel_out(2)[where R = emission])
     (auto intro: emission_nil emission_comp touch_emission)

lemma map_filter_Cons:
  "List.map_filter f (x # xs) = (case f x of None \<Rightarrow> List.map_filter f xs | Some y \<Rightarrow> y # List.map_filter f xs)"
  by (simp add: List.map_filter_def split: option.splits)

lemma set_map_filter: "set (List.map_filter f xs) = {y. \<exists>x \<in> set xs. f x = Some y}"
  by (induction xs) (auto simp: map_filter_Cons List.map_filter_simps split: option.splits)

lemma distinct_map_filter_nth:
  "distinct (List.map_filter f xs) \<Longrightarrow> i < length xs \<Longrightarrow> j < length xs \<Longrightarrow>
   f (xs ! i) = Some a \<Longrightarrow> f (xs ! j) = Some a \<Longrightarrow> i = j"
proof (induction xs arbitrary: i j)
  case Nil
  then show ?case by simp
next
  case (Cons x xs)
  show ?case
  proof (cases i)
    case i0: 0
    show ?thesis
    proof (cases j)
      case 0
      with i0 show ?thesis by simp
    next
      case (Suc j')
      with Cons.prems i0 have "f x = Some a" "f (xs ! j') = Some a" "j' < length xs" by simp_all
      then have "a \<in> set (List.map_filter f xs)" by (auto simp: set_map_filter)
      with Cons.prems(1) \<open>f x = Some a\<close> show ?thesis by (simp add: map_filter_Cons)
    qed
  next
    case si: (Suc i')
    show ?thesis
    proof (cases j)
      case 0
      with Cons.prems si have "f x = Some a" "f (xs ! i') = Some a" "i' < length xs" by simp_all
      then have "a \<in> set (List.map_filter f xs)" by (auto simp: set_map_filter)
      with Cons.prems(1) \<open>f x = Some a\<close> show ?thesis by (simp add: map_filter_Cons)
    next
      case (Suc j')
      from Cons.prems(1) have "distinct (List.map_filter f xs)"
        by (simp add: map_filter_Cons split: option.splits)
      from Cons.IH[OF this, of i' j'] Cons.prems si Suc show ?thesis by simp
    qed
  qed
qed

lemma unshared_nth:
  "unshared s \<Longrightarrow> i < length (nodes s) \<Longrightarrow> j < length (nodes s) \<Longrightarrow>
   Indicator (nodes s ! i) = Some a \<Longrightarrow> Indicator (nodes s ! j) = Some a \<Longrightarrow> i = j"
  unfolding unshared_def by (rule distinct_map_filter_nth)

lemma Split_nonempty: "Split s sep \<noteq> []"
  by (induction s) (auto split: list.splits)

lemma Split_no_sep: "sep \<notin> set s \<Longrightarrow> Split s sep = [s]"
  by (induction s) auto

lemma Split_at_sep: "sep \<notin> set xs \<Longrightarrow> Split (xs @ sep # ys) sep = xs # Split ys sep"
  by (induction xs) (auto split: list.splits)

lemma Split_single: "\<not> 1 < length (Split s sep) \<Longrightarrow> Split s sep = [s]"
proof (induction s)
  case Nil
  then show ?case by simp
next
  case (Cons c cs)
  show ?case
  proof (cases "c = sep")
    case True
    with Cons.prems Split_nonempty[of cs sep] show ?thesis
      by (cases "Split cs sep") auto
  next
    case False
    obtain p ps where p: "Split cs sep = p # ps"
      using Split_nonempty[of cs sep] by (cases "Split cs sep") auto
    with Cons.prems False have "\<not> 1 < length (Split cs sep)" by simp
    from Cons.IH[OF this] p False show ?thesis by simp
  qed
qed

lemma emitIndicator_value:
  assumes "emitIndicator s n = (inds, s')" "truth (nodes s ! n) = truthTrue"
    "Indicator (nodes s ! n) = Some a"
  shows "inds = [a] \<and>
     indicators s' a =
       (case Pattern (nodes s ! n) of
          None \<Rightarrow> indicators s a
        | Some p \<Rightarrow> if UseOriginalIndicatorValue (nodes s ! n) then indicators s a
                    else substituted (indicators s a) p)"
proof (cases "Pattern (nodes s ! n)")
  case None
  with assms show ?thesis by (auto simp: emitIndicator_def Let_def)
next
  case (Some p)
  have ty: "(if 1 < length (Split (Pattern.Type p) CHR ''.'')
             then Split (Pattern.Type p) CHR ''.'' ! 1 else Split (Pattern.Type p) CHR ''.'' ! 0)
        = (if 2 \<le> length (Split (Pattern.Type p) CHR ''.'')
            then Split (Pattern.Type p) CHR ''.'' ! 1 else Pattern.Type p)"
    using Split_single[of "Pattern.Type p" "CHR ''.''"] by auto
  have "substituted (indicators s a) p =
      (indicators s a)\<lparr>Indicator.Type :=
           (if 1 < length (Split (Pattern.Type p) CHR ''.'')
             then Split (Pattern.Type p) CHR ''.'' ! 1 else Split (Pattern.Type p) CHR ''.'' ! 0),
         Indicator.Value := Pattern.Value p\<rparr>"
    unfolding substituted_def ty ..
  with assms Some show ?thesis
    unfolding emitIndicator_def Let_def
    by (auto split: if_splits)
qed

section \<open>Resolution is final within an event\<close>

lemma touch_already:
  assumes "n < length (nodes s)" "deref s c = Some ch" "truth ch \<noteq> truthUnknown"
    "resolved ev (nodes s ! n)"
  shows "touch s c n ev = Inr (False, [], SiblingNots (nodes s ! n), s)"
proof -
  from assms(4) have "updNode s n (\<lambda>nd. resetNode nd ev) = s"
    by (rule updNode_reset_resolved)
  moreover from assms(4) have "truth (nodes s ! n) \<noteq> truthUnknown" by (simp add: resolved_def)
  ultimately show ?thesis using assms(1-3) by (simp add: touch_def Let_def)
qed

lemma setTruth_already:
  assumes "n < length (nodes s)" "deref s c = Some ch" "truth ch \<noteq> truthUnknown"
    "resolved ev (nodes s ! n)"
  shows "setTruth s c n ev = Inr ([], SiblingNots (nodes s ! n), s)"
  by (simp add: setTruth_touch touch_already[OF assms])






section \<open>Sibling negations\<close>

lemma resetNode_current: "eventID nd = ev \<Longrightarrow> resetNode nd ev = nd"
  by (simp add: resetNode_def)

lemma setTruth_twice:
  assumes c: "c = trueNode \<or> c = falseNode"
    and call: "setTruth s c n ev = Inr (inds, nots, s')"
  shows "prefix (SiblingNots (nodes s ! n)) nots \<and>
         setTruth s' c n ev = Inr ([], SiblingNots (nodes s ! n), s')"
proof -
  from c obtain ch where d: "\<And>h. deref h c = Some ch" and k: "truth ch \<noteq> truthUnknown"
    by auto
  from call obtain b i1 d1 s4 where t: "touch s c n ev = Inr (b, i1, d1, s4)"
    by (auto simp: setTruth_touch split: sum.splits)
  from t show ?thesis
  proof (cases rule: touch_Inr)
    case (unknown_child child0)
    with d k show ?thesis by simp
  next
    case (already child0)
    with call t have "s' = s" "nots = SiblingNots (nodes s ! n)" by (auto simp: setTruth_touch)
    with setTruth_already[OF already(1) d k already(4)] show ?thesis by simp
  next
    case (stays child0)
    let ?s1 = "updNode s n (\<lambda>nd. resetNode nd ev)"
    from call t stays(6-9) have eq: "s' = ?s1" "nots = SiblingNots (nodes s ! n)"
      by (auto simp: setTruth_touch)
    from stays(1) have n1: "n < length (nodes ?s1)" by simp
    from stays(1) have "resetNode (nodes ?s1 ! n) ev = nodes ?s1 ! n"
      by (simp add: resetNode_current)
    then have r1: "updNode ?s1 n (\<lambda>nd. resetNode nd ev) = ?s1"
      by (simp add: updNode_def)
    from stays(1,4) have u1: "truth (nodes ?s1 ! n) = truthUnknown" by (simp add: truth_resetNode)
    from stays(1) have sn: "SiblingNots (nodes ?s1 ! n) = SiblingNots (nodes s ! n)" by simp
    have "touch ?s1 c n ev = Inr (False, [], SiblingNots (nodes s ! n), ?s1)"
      unfolding touch_def[of ?s1] r1 Let_def sn
      using n1 d[of ?s1] k u1 stays(5) by simp
    then have "setTruth ?s1 c n ev = Inr ([], SiblingNots (nodes s ! n), ?s1)"
      by (simp add: setTruth_touch)
    with eq show ?thesis by simp
  next
    case (resolves child0 t' s2)
    with call t obtain pinds pnots where
      pl: "parentsLoop s4 n (Parents (nodes s4 ! n)) ev = Inr (pinds, pnots, s')"
      and eq: "nots = SiblingNots (nodes s ! n) @ pnots"
      by (auto simp: setTruth_touch split: sum.splits)
    from touch_resolves_shape[OF resolves(1,5,7)] resolves(1,6)
    have r4: "resolved ev (nodes s4 ! n)" and l4: "length (nodes s4) = length (nodes s)"
      by (auto simp: resolved_def)
    with parentsLoop_resolvedKept[OF pl] resolves(1) have "nodes s' ! n = nodes s4 ! n"
      by (simp add: resolvedKept_def)
    with r4 have r': "resolved ev (nodes s' ! n)" by simp
    from setTruth_structure[OF call] resolves(1)
    have l': "n < length (nodes s')" and sn: "SiblingNots (nodes s' ! n) = SiblingNots (nodes s ! n)"
      by (simp_all add: structureKept_def sameShape_def)
    from setTruth_already[OF l' d k r'] sn eq show ?thesis by simp
  qed
qed

text \<open>
  Claim C6. The sibling negations of the node come first in the list that a call of
  \<open>Fire\<close> or \<open>ResolveNot\<close> on the node returns, whether or not the call changes the truth
  of the node. A second call of the same kind on the same node for the same event returns
  exactly these sibling negations again, returns no indicator, and leaves the heap as the
  first call left it. On a well-formed heap both calls return.
\<close>

theorem sibling_nots_on_every_touch:
  "(Fire s n ev = Inr (inds, nots, s') \<longrightarrow>
      prefix (SiblingNots (nodes s ! n)) nots \<and>
      Fire s' n ev = Inr ([], SiblingNots (nodes s ! n), s'))
   \<and> (ResolveNot s n ev = Inr (inds, nots, s') \<longrightarrow>
      prefix (SiblingNots (nodes s ! n)) nots \<and>
      ResolveNot s' n ev = Inr ([], SiblingNots (nodes s ! n), s'))
   \<and> (wellFormed s \<and> n < length (nodes s) \<longrightarrow>
      (\<exists>r. Fire s n ev = Inr r) \<and> (\<exists>r. ResolveNot s n ev = Inr r))"
proof -
  have 1: "prefix (SiblingNots (nodes s ! n)) nots \<and>
      Fire s' n ev = Inr ([], SiblingNots (nodes s ! n), s')"
    if "Fire s n ev = Inr (inds, nots, s')"
    using setTruth_twice[of trueNode s n ev inds nots s'] that by (simp add: Fire_def)
  have 2: "prefix (SiblingNots (nodes s ! n)) nots \<and>
      ResolveNot s' n ev = Inr ([], SiblingNots (nodes s ! n), s')"
    if "ResolveNot s n ev = Inr (inds, nots, s')"
    using setTruth_twice[of falseNode s n ev inds nots s'] that by (simp add: ResolveNot_def)
  have 3: "(\<exists>r. Fire s n ev = Inr r) \<and> (\<exists>r. ResolveNot s n ev = Inr r)"
    if "wellFormed s \<and> n < length (nodes s)"
    using setTruth_no_panic(1)[of s n trueNode ev] setTruth_no_panic(1)[of s n falseNode ev] that
    by (simp add: Fire_def ResolveNot_def)
  from 1 2 3 show ?thesis by blast
qed

lemma ResolveNot_notHeap: "ResolveNot notHeap 1 1 = Inr ([], [1], notHeapResolved)"
  by (simp add: run_simps notHeap_def notHeapResolved_def leaf_def)

lemma Fire_sibHeap: "Fire sibHeap 0 1 = Inr ([0], [3], sibHeapFired)"
  by (simp add: run_simps sibHeap_def sibHeapFired_def leaf_def fired_def)

theorem sibling_nots_on_every_touch_witness:
  "Fire sibHeap 0 1 = Inr ([0], [3], sibHeapFired) \<and>
   SiblingNots (nodes sibHeap ! 0) = [3] \<and>
   prefix (SiblingNots (nodes sibHeap ! 0)) [3] \<and>
   Fire sibHeapFired 0 1 = Inr ([], SiblingNots (nodes sibHeap ! 0), sibHeapFired) \<and>
   ResolveNot notHeap 1 1 = Inr ([], [1], notHeapResolved) \<and>
   ResolveNot notHeapResolved 1 1 = Inr ([], SiblingNots (nodes notHeap ! 1), notHeapResolved) \<and>
   wellFormed notHeap \<and> (\<exists>r. Fire notHeap 1 1 = Inr r)"
proof -
  have s: "SiblingNots (nodes sibHeap ! 0) = [3]"
    "wellFormed notHeap \<and> 1 < length (nodes notHeap)"
    by (simp_all add: sibHeap_def notHeap_def wellFormed_def leaf_def zeroNode_def)
  note a = sibling_nots_on_every_touch[of notHeap 1 1 "[]" "[1]" notHeapResolved]
  note b = sibling_nots_on_every_touch[of sibHeap 0 1 "[0]" "[3]" sibHeapFired]
  from b Fire_sibHeap
  have 1: "prefix (SiblingNots (nodes sibHeap ! 0)) [3]"
    "Fire sibHeapFired 0 1 = Inr ([], SiblingNots (nodes sibHeap ! 0), sibHeapFired)"
    by blast+
  from a ResolveNot_notHeap
  have 2: "ResolveNot notHeapResolved 1 1
             = Inr ([], SiblingNots (nodes notHeap ! 1), notHeapResolved)"
    by blast
  from a s(2) have 3: "\<exists>r. Fire notHeap 1 1 = Inr r" by blast
  from ResolveNot_notHeap Fire_sibHeap s 1 2 3 show ?thesis by blast
qed

section \<open>Indicator value substitution\<close>

text \<open>
  Claim C7. Let a call resolve the node \<open>n\<close> true for the event: the node was not resolved
  for the event before the call and is true for the event after it. When the node carries
  an indicator, the address of that indicator is the first the call returns. When no other
  node points to the same indicator object, the object is after the call: as it was
  before the call when the node has no pattern; as it was before the call when the node
  has a pattern and \<open>UseOriginalIndicatorValue\<close> is set; and otherwise as it was but for
  the type and the value, which are those of \<open>substituted\<close>: the second component of the
  dotted type of the pattern when there are two or more, the whole type when there is
  one, and the value of the pattern. The pattern is the one the node has when it is
  resolved, its own or the one adopted from a child.
\<close>

theorem indicator_value_substitution:
  assumes call: "setTruth s c n ev = Inr (inds, nots, s')"
    and nr: "\<not> resolved ev (nodes s ! n)"
    and tr: "truth (nodes s' ! n) = truthTrue" "eventID (nodes s' ! n) = ev"
    and a: "Indicator (nodes s ! n) = Some a"
  shows "inds \<noteq> [] \<and> hd inds = a \<and>
     (unshared s \<longrightarrow>
        indicators s' a =
          (case Pattern (nodes s' ! n) of
             None \<Rightarrow> indicators s a
           | Some p \<Rightarrow>
               if UseOriginalIndicatorValue (nodes s ! n) then indicators s a
               else substituted (indicators s a) p))"
proof -
  from call obtain b i1 d1 s4 where t: "touch s c n ev = Inr (b, i1, d1, s4)"
    by (auto simp: setTruth_touch split: sum.splits)
  from t show ?thesis
  proof (cases rule: touch_Inr)
    case (unknown_child child0)
    with call t have "s' = s" by (auto simp: setTruth_touch)
    with tr nr show ?thesis by (simp add: resolved_def)
  next
    case (already child0)
    with nr show ?thesis by simp
  next
    case (stays child0)
    with call t have "s' = updNode s n (\<lambda>nd. resetNode nd ev)" by (auto simp: setTruth_touch)
    with stays(1) tr(1) have "truth (resetNode (nodes s ! n) ev) = truthTrue" by simp
    moreover from stays(4) have "truth (resetNode (nodes s ! n) ev) = truthUnknown"
      by (simp add: truth_resetNode)
    ultimately show ?thesis by simp
  next
    case (resolves child0 t' s2)
    let ?s3 = "updNode s2 n (\<lambda>nd. nd\<lparr>truth := t'\<rparr>)"
    from resolves call t obtain pinds pnots where
      pl: "parentsLoop s4 n (Parents (nodes s4 ! n)) ev = Inr (pinds, pnots, s')"
      and eq: "inds = i1 @ pinds"
      by (auto simp: setTruth_touch split: sum.splits)
    from touch_resolves_shape[OF resolves(1,5,7)] obtain p where
      p: "nodes s4 = (nodes s)[n := (resetNode (nodes s ! n) ev)\<lparr>Pattern := p, truth := t'\<rparr>]"
      by blast
    from p resolves(1,6) have r4: "resolved ev (nodes s4 ! n)"
      and l4: "length (nodes s4) = length (nodes s)"
      by (auto simp: resolved_def)
    from parentsLoop_resolvedKept[OF pl] r4 resolves(1) l4
    have same: "nodes s' ! n = nodes s4 ! n" by (simp add: resolvedKept_def)
    from nodes_emitIndicator[OF resolves(7)] have n3: "nodes ?s3 = nodes s4" by simp
    from same tr(1) p resolves(1) have t': "t' = truthTrue" by simp
    from p resolves(1) a same t'
    have f3: "truth (nodes ?s3 ! n) = truthTrue" "Indicator (nodes ?s3 ! n) = Some a"
      "Pattern (nodes ?s3 ! n) = Pattern (nodes s' ! n)"
      "UseOriginalIndicatorValue (nodes ?s3 ! n) = UseOriginalIndicatorValue (nodes s ! n)"
      unfolding n3 by simp_all
    from evalOperator_heap[OF resolves(5)] have i3: "indicators ?s3 = indicators s" by simp
    from emitIndicator_value[OF resolves(7) f3(1,2)]
    have i1: "i1 = [a]" and v4: "indicators s4 a =
          (case Pattern (nodes s' ! n) of
             None \<Rightarrow> indicators s a
           | Some p \<Rightarrow>
               if UseOriginalIndicatorValue (nodes s ! n) then indicators s a
               else substituted (indicators s a) p)"
      unfolding f3 i3 by simp_all
    have "indicators s' a = indicators s4 a" if un: "unshared s"
    proof -
      from parentsLoop_emission[OF pl] obtain ms where
        o: "\<forall>x. x \<notin> set pinds \<longrightarrow> indicators s' x = indicators s4 x"
        and e: "emitters ev s4 pinds s' ms"
        by (auto simp: emission_def)
      have "a \<notin> set pinds"
      proof
        assume "a \<in> set pinds"
        then have "Some a \<in> set (map Some pinds)" by simp
        with e have "Some a \<in> set (map (\<lambda>m. Indicator (nodes s4 ! m)) ms)"
          by (simp add: emitters_def)
        then obtain m where m: "m \<in> set ms" "Indicator (nodes s4 ! m) = Some a" by auto
        with e have ml: "m < length (nodes s4)" and mu: "\<not> resolved ev (nodes s4 ! m)"
          by (auto simp: emitters_def)
        from mu r4 have "m \<noteq> n" by auto
        with p m(2) have "Indicator (nodes s ! m) = Some a" by simp
        from unshared_nth[OF un _ resolves(1) this a] ml l4 \<open>m \<noteq> n\<close> show False by simp
      qed
      with o show ?thesis by simp
    qed
    with i1 eq v4 show ?thesis by simp
  qed
qed

lemma setTruth_orHeap:
  "setTruth (updNode orHeap 0 (fired 1)) (Ptr 0) 1 1 = Inr ([0], [], orHeapFired)"
  by (simp add: run_simps orHeap_def orHeapFired_def leaf_def fired_def)

theorem indicator_value_substitution_witness:
  "setTruth (updNode orHeap 0 (fired 1)) (Ptr 0) 1 1 = Inr ([0], [], orHeapFired) \<and>
   \<not> resolved 1 (nodes (updNode orHeap 0 (fired 1)) ! 1) \<and>
   truth (nodes orHeapFired ! 1) = truthTrue \<and>
   Indicator (nodes (updNode orHeap 0 (fired 1)) ! 1) = Some 0 \<and>
   unshared (updNode orHeap 0 (fired 1)) \<and>
   hd [0::nat] = 0 \<and>
   indicators orHeapFired 0 = substituted torIndicator
      \<lparr>Pattern.Type = ''src.ipv4'', Value = ''10.0.0.1'', Value2 = [], Match = []\<rparr> \<and>
   Indicator.Type (indicators orHeapFired 0) = ''ipv4'' \<and>
   Indicator.Value (indicators orHeapFired 0) = ''10.0.0.1''"
proof -
  let ?s = "updNode orHeap 0 (fired 1)"
  have h: "\<not> resolved 1 (nodes ?s ! 1)" "truth (nodes orHeapFired ! 1) = truthTrue"
    "eventID (nodes orHeapFired ! 1) = 1" "Indicator (nodes ?s ! 1) = Some 0"
    by (simp_all add: orHeap_def orHeapFired_def leaf_def fired_def zeroNode_def resolved_def)
  have u: "unshared ?s"
    by (simp add: unshared_def orHeap_def leaf_def fired_def zeroNode_def map_filter_Cons
        List.map_filter_simps)
  have v: "Pattern (nodes orHeapFired ! 1)
             = Some \<lparr>Pattern.Type = ''src.ipv4'', Value = ''10.0.0.1'', Value2 = [], Match = []\<rparr>"
    "UseOriginalIndicatorValue (nodes ?s ! 1) = False" "indicators ?s 0 = torIndicator"
    by (simp_all add: orHeap_def orHeapFired_def leaf_def fired_def zeroNode_def)
  from indicator_value_substitution[OF setTruth_orHeap h] u
  have 1: "hd [0::nat] = 0" and 2: "indicators orHeapFired 0 = substituted torIndicator
      \<lparr>Pattern.Type = ''src.ipv4'', Value = ''10.0.0.1'', Value2 = [], Match = []\<rparr>"
    unfolding v option.case if_False by simp_all
  have 3: "Indicator.Type (indicators orHeapFired 0) = ''ipv4''"
    "Indicator.Value (indicators orHeapFired 0) = ''10.0.0.1''"
    by (simp_all add: orHeapFired_def)
  from setTruth_orHeap h u 1 2 3 show ?thesis by blast
qed

end
